theory Spec2Isabelle
  imports Main "HOL-Library.Multiset"
begin

section \<open>The puzzle state\<close>

text \<open>
  A \<open>NumberPuzzle\<close> object of \<open>main.py\<close>: the 4x4 tile array, the cached position of the
  blank, the predecessor link, the number of moves from the start and the priority key.
  The numpy array holds float64 numbers, all of them integers: the parser stores the
  float64 nearest to each token's value (see \<open>np_float64\<close> below) and \<open>move\<close> only copies
  entries and writes 0. The model stores these integers. The predecessor is a value here:
  a state is never mutated once its children exist, so the snapshot taken by \<open>copy\<close> is
  the object.
\<close>

datatype puzzle = NumberPuzzle
  (tiles: "int list list")
  (blank_r: int)
  (blank_c: int)
  (parent: "puzzle option")
  (dist_from_start: int)
  (key: int)

definition PUZZLE_WIDTH :: int where
  "PUZZLE_WIDTH = 4"

definition BLANK :: int where
  "BLANK = 0"

text \<open>Reading and writing \<open>tiles[r][c]\<close>, for indices inside the 4x4 array.\<close>

definition get_tile :: "int list list \<Rightarrow> int \<Rightarrow> int \<Rightarrow> int" where
  "get_tile t r c = t ! nat r ! nat c"

definition set_tile :: "int list list \<Rightarrow> int \<Rightarrow> int \<Rightarrow> int \<Rightarrow> int list list" where
  "set_tile t r c v = t[nat r := (t ! nat r)[nat c := v]]"

text \<open>
  The states the code builds: a 4x4 array (\<open>np.zeros((4, 4))\<close> and \<open>np.copy\<close> give no other
  shape) and a blank position on the grid. On them no index of the source is out of range.
\<close>

definition shape4 :: "int list list \<Rightarrow> bool" where
  "shape4 t \<longleftrightarrow> length t = 4 \<and> (\<forall>row \<in> set t. length row = 4)"

definition on_grid :: "int \<Rightarrow> int \<Rightarrow> bool" where
  "on_grid r c \<longleftrightarrow> 0 \<le> r \<and> r < PUZZLE_WIDTH \<and> 0 \<le> c \<and> c < PUZZLE_WIDTH"

definition wf_puzzle :: "puzzle \<Rightarrow> bool" where
  "wf_puzzle s \<longleftrightarrow> shape4 (tiles s) \<and> on_grid (blank_r s) (blank_c s)"

definition blank_ok :: "puzzle \<Rightarrow> bool" where
  "blank_ok s \<longleftrightarrow> get_tile (tiles s) (blank_r s) (blank_c s) = 0"

text \<open>\<open>NumberPuzzle.__init__\<close>\<close>

definition new_puzzle :: puzzle where
  "new_puzzle = NumberPuzzle (replicate 4 (replicate 4 0)) 0 0 None 0 0"

text \<open>\<open>NumberPuzzle.copy\<close>: a fresh object with its own array; the key stays 0.\<close>

definition copy :: "puzzle \<Rightarrow> puzzle" where
  "copy self = NumberPuzzle (tiles self) (blank_r self) (blank_c self) (Some self)
     (dist_from_start self) 0"

text \<open>\<open>NumberPuzzle.move\<close>\<close>

definition move :: "puzzle \<Rightarrow> int \<Rightarrow> int \<Rightarrow> puzzle" where
  "move self tile_row tile_column =
     (let t1 = set_tile (tiles self) (blank_r self) (blank_c self)
                 (get_tile (tiles self) tile_row tile_column);
          t2 = set_tile t1 tile_row tile_column BLANK
      in NumberPuzzle t2 tile_row tile_column (parent self) (dist_from_start self + 1) (key self))"

text \<open>\<open>NumberPuzzle.legal_moves\<close>: the list \<open>legal\<close> after each of the four tests.\<close>

definition legal_moves :: "puzzle \<Rightarrow> puzzle list" where
  "legal_moves self =
     (let legal = [];
          legal = (if blank_r self > 0
                   then legal @ [move (copy self) (blank_r self - 1) (blank_c self)] else legal);
          legal = (if blank_c self > 0
                   then legal @ [move (copy self) (blank_r self) (blank_c self - 1)] else legal);
          legal = (if blank_r self < PUZZLE_WIDTH - 1
                   then legal @ [move (copy self) (blank_r self + 1) (blank_c self)] else legal);
          legal = (if blank_c self < PUZZLE_WIDTH - 1
                   then legal @ [move (copy self) (blank_r self) (blank_c self + 1)] else legal)
      in legal)"

section \<open>Goal test and heuristics\<close>

text \<open>The cells in the order of the two nested \<open>range(PUZZLE_WIDTH)\<close> loops.\<close>

definition cells :: "(int \<times> int) list" where
  "cells = List.product [0..PUZZLE_WIDTH - 1] [0..PUZZLE_WIDTH - 1]"

text \<open>\<open>NumberPuzzle.solved\<close>: the scan stops with False at the first cell that differs.\<close>

fun solved_loop :: "int list list \<Rightarrow> (int \<times> int) list \<Rightarrow> int \<Rightarrow> bool" where
  "solved_loop t [] should_be = True"
| "solved_loop t ((i, j) # cs) should_be =
     (if get_tile t i j \<noteq> should_be then False
      else solved_loop t cs ((should_be + 1) mod (PUZZLE_WIDTH ^ 2)))"

definition solved :: "puzzle \<Rightarrow> bool" where
  "solved self = solved_loop (tiles self) cells 1"

text \<open>\<open>NumberPuzzle.tile_mismatch_heuristic\<close>: the loop state is the count and \<open>should_be\<close>.\<close>

definition mismatch_step :: "int list list \<Rightarrow> int \<times> int \<Rightarrow> int \<times> int \<Rightarrow> int \<times> int" where
  "mismatch_step t = (\<lambda>(ii, jj) (mismatch_count, should_be).
     ((if get_tile t ii jj \<noteq> should_be \<and> get_tile t ii jj \<noteq> 0
       then mismatch_count + 1 else mismatch_count),
      (should_be + 1) mod (PUZZLE_WIDTH ^ 2)))"

definition tile_mismatch_heuristic :: "puzzle \<Rightarrow> int" where
  "tile_mismatch_heuristic self = fst (fold (mismatch_step (tiles self)) cells (0, 1))"

text \<open>
  \<open>NumberPuzzle.manhattan_heuristic\<close>. Python's \<open>//\<close> and \<open>%\<close> round towards minus
  infinity, as \<open>div\<close> and \<open>mod\<close> on \<open>int\<close> do; \<open>math.ceil\<close> of the floored quotient is the
  quotient.
\<close>

definition manhattan_step :: "int list list \<Rightarrow> int \<times> int \<Rightarrow> int \<times> int \<Rightarrow> int \<times> int" where
  "manhattan_step t = (\<lambda>(ii, jj) (total_manhattan, should_be).
     ((if get_tile t ii jj \<noteq> should_be \<and> get_tile t ii jj \<noteq> 0
       then (let y_offset = \<bar>get_tile t ii jj div 4 - ii\<bar>;
                 x_offset = \<bar>get_tile t ii jj mod 4 - jj\<bar>
             in total_manhattan + (x_offset + y_offset))
       else total_manhattan),
      (should_be + 1) mod (PUZZLE_WIDTH ^ 2)))"

definition manhattan_heuristic :: "puzzle \<Rightarrow> int" where
  "manhattan_heuristic self = fst (fold (manhattan_step (tiles self)) cells (0, 1))"

text \<open>\<open>NumberPuzzle.heuristic\<close>\<close>

definition heuristic :: "puzzle \<Rightarrow> bool \<Rightarrow> int" where
  "heuristic self better_h =
     (if better_h then manhattan_heuristic self else tile_mismatch_heuristic self)"

section \<open>The priority queue\<close>

text \<open>
  \<open>open_list\<close> is a \<open>queue.PriorityQueue\<close>: a Python list kept as a binary heap by
  \<open>heapq.heappush\<close> (\<open>put\<close>) and \<open>heapq.heappop\<close> (\<open>_get\<close>), which compare items with
  \<open>NumberPuzzle.__lt__\<close> only. Which of several states of equal key leaves the heap first
  is decided by these sift loops, so they are modelled step by step.
\<close>

definition lt :: "puzzle \<Rightarrow> puzzle \<Rightarrow> bool" where
  "lt self obj \<longleftrightarrow> key self < key obj"

function siftdown_loop :: "puzzle list \<Rightarrow> puzzle \<Rightarrow> nat \<Rightarrow> nat \<Rightarrow> puzzle list" where
  "siftdown_loop heap newitem startpos pos =
     (if pos > startpos
      then (let parentpos = (pos - 1) div 2;
                parent = heap ! parentpos
            in if lt newitem parent
               then siftdown_loop (heap[pos := parent]) newitem startpos parentpos
               else heap[pos := newitem])
      else heap[pos := newitem])"
  by pat_completeness auto
termination
  by (relation "measure (\<lambda>(heap, newitem, startpos, pos). pos)") auto

declare siftdown_loop.simps [simp del]

definition siftdown :: "puzzle list \<Rightarrow> nat \<Rightarrow> nat \<Rightarrow> puzzle list" where
  "siftdown heap startpos pos = siftdown_loop heap (heap ! pos) startpos pos"

function siftup_loop :: "puzzle list \<Rightarrow> nat \<Rightarrow> nat \<Rightarrow> puzzle list \<times> nat" where
  "siftup_loop heap endpos pos =
     (let childpos = 2 * pos + 1
      in if childpos < endpos
         then (let rightpos = childpos + 1;
                   childpos = (if rightpos < endpos \<and> \<not> lt (heap ! childpos) (heap ! rightpos)
                               then rightpos else childpos)
               in siftup_loop (heap[pos := heap ! childpos]) endpos childpos)
         else (heap, pos))"
  by pat_completeness auto
termination
  by (relation "measure (\<lambda>(heap, endpos, pos). endpos - pos)") (auto simp: Let_def)

declare siftup_loop.simps [simp del]

definition siftup :: "puzzle list \<Rightarrow> nat \<Rightarrow> puzzle list" where
  "siftup heap pos =
     (let endpos = length heap;
          startpos = pos;
          newitem = heap ! pos;
          (heap', pos') = siftup_loop heap endpos pos
      in siftdown (heap'[pos' := newitem]) startpos pos')"

definition heappush :: "puzzle list \<Rightarrow> puzzle \<Rightarrow> puzzle list" where
  "heappush heap item = siftdown (heap @ [item]) 0 (length (heap @ [item]) - 1)"

text \<open>\<open>heappop\<close> is only called on a non-empty heap: the loop of \<open>solve\<close> tests the size.\<close>

definition heappop :: "puzzle list \<Rightarrow> puzzle \<times> puzzle list" where
  "heappop heap =
     (let lastelt = last heap;
          heap = butlast heap
      in if heap \<noteq> []
         then (let returnitem = heap ! 0;
                   heap = heap[0 := lastelt]
               in (returnitem, siftup heap 0))
         else (lastelt, heap))"

section \<open>The search\<close>

text \<open>The backtracking loop inside \<open>solve\<close>: \<open>goal_state.insert(0, parent)\<close>.\<close>

fun backtrack :: "puzzle list \<Rightarrow> puzzle option \<Rightarrow> puzzle list" where
  "backtrack goal_state None = goal_state"
| "backtrack goal_state (Some (NumberPuzzle t r c p d k)) =
     backtrack (NumberPuzzle t r c p d k # goal_state) p"

definition set_key :: "int \<Rightarrow> puzzle \<Rightarrow> puzzle" where
  "set_key k node = NumberPuzzle (tiles node) (blank_r node) (blank_c node) (parent node)
     (dist_from_start node) k"

definition set_parent :: "puzzle \<Rightarrow> puzzle \<Rightarrow> puzzle" where
  "set_parent state node = NumberPuzzle (tiles node) (blank_r node) (blank_c node) (Some state)
     (dist_from_start node) (key node)"

text \<open>One pass of \<open>for node in state.legal_moves()\<close>.\<close>

definition push_node :: "bool \<Rightarrow> puzzle \<Rightarrow> puzzle \<Rightarrow> puzzle list \<Rightarrow> puzzle list" where
  "push_node better_h state node open_list =
     (let node = set_key (heuristic node better_h + dist_from_start node) node
      in heappush open_list (set_parent state node))"

text \<open>
  The \<open>while\<close> loop of \<open>solve\<close>. \<open>closed_list\<close> holds \<open>hash(bytes(self.tiles))\<close> of the
  expanded states; the model keeps the tile arrays themselves, that is, it takes the hash
  to be free of collisions. A run that never leaves the loop is the value \<open>None\<close>.
\<close>

partial_function (option) astar_loop ::
  "bool \<Rightarrow> puzzle list \<Rightarrow> int list list set \<Rightarrow> int \<Rightarrow> (puzzle list option \<times> int) option" where
  "astar_loop better_h open_list closed_list explored =
     (if length open_list \<noteq> 0
      then (let explored = explored + 1;
                popped = heappop open_list;
                state = fst popped;
                open_list = snd popped
            in if solved state
               then Some (Some (backtrack [state] (parent state)), explored)
               else (let q = tiles state
                     in if q \<in> closed_list
                        then astar_loop better_h open_list closed_list explored
                        else astar_loop better_h
                               (fold (push_node better_h state) (legal_moves state) open_list)
                               (insert q closed_list) explored))
      else Some (None, explored))"

declare astar_loop.simps [code]

definition solve :: "puzzle \<Rightarrow> bool \<Rightarrow> (puzzle list option \<times> int) option" where
  "solve self better_h = astar_loop better_h (heappush [] self) {} 0"

section \<open>The parser\<close>

text \<open>
  \<open>read_puzzle_string\<close> can fail in three ways: an index out of range (a line with fewer
  than four tokens, a fifth line) is an uncaught \<open>IndexError\<close>, a token that \<open>int\<close> rejects
  ends the run through \<open>sys.exit\<close>, and an integer too large for the float64 array is an
  uncaught \<open>OverflowError\<close> (the \<open>try\<close> catches \<open>ValueError\<close> only).
\<close>

datatype error = IndexError | SystemExit | OverflowError

text \<open>
  A character of the model is one code point of the Python string, below 256. The line
  boundaries of \<open>str.splitlines\<close> and the white space of \<open>str.split\<close> in that range:
\<close>

definition is_linebreak :: "char \<Rightarrow> bool" where
  "is_linebreak ch \<longleftrightarrow>
     ch \<in> set [CHR 0x0A, CHR 0x0B, CHR 0x0C, CHR 0x0D, CHR 0x1C, CHR 0x1D, CHR 0x1E, CHR 0x85]"

definition is_space :: "char \<Rightarrow> bool" where
  "is_space ch \<longleftrightarrow>
     ch \<in> set [CHR 0x09, CHR 0x0A, CHR 0x0B, CHR 0x0C, CHR 0x0D, CHR 0x1C, CHR 0x1D, CHR 0x1E,
               CHR 0x1F, CHR 0x20, CHR 0x85, CHR 0xA0]"

text \<open>\<open>str.splitlines\<close>: \<open>cur\<close> is the line being read, reversed; CR LF is one boundary.\<close>

fun splitlines_from :: "string \<Rightarrow> string \<Rightarrow> string list" where
  "splitlines_from cur [] = (if cur = [] then [] else [rev cur])"
| "splitlines_from cur [ch] =
     (if is_linebreak ch then [rev cur] else [rev (ch # cur)])"
| "splitlines_from cur (ch # ch' # rest) =
     (if ch = CHR 0x0D \<and> ch' = CHR 0x0A then rev cur # splitlines_from [] rest
      else if is_linebreak ch then rev cur # splitlines_from [] (ch' # rest)
      else splitlines_from (ch # cur) (ch' # rest))"

definition splitlines :: "string \<Rightarrow> string list" where
  "splitlines s = splitlines_from [] s"

text \<open>\<open>str.split()\<close> with no argument: runs of white space separate, none yields a token.\<close>

fun split_from :: "string \<Rightarrow> string \<Rightarrow> string list" where
  "split_from cur [] = (if cur = [] then [] else [rev cur])"
| "split_from cur (ch # rest) =
     (if is_space ch then (if cur = [] then split_from [] rest else rev cur # split_from [] rest)
      else split_from (ch # cur) rest)"

definition split :: "string \<Rightarrow> string list" where
  "split s = split_from [] s"

text \<open>
  \<open>int(token)\<close> on a token without white space: an optional sign, then decimal digits,
  where single underscores may stand between digits. \<open>None\<close> is the \<open>ValueError\<close>, which
  CPython 3.11 and later also raise for more than 4300 digit characters (the default of
  \<open>sys.set_int_max_str_digits\<close>; leading zeros count, the sign and underscores do not).
\<close>

definition is_digit :: "char \<Rightarrow> bool" where
  "is_digit ch \<longleftrightarrow> ch \<in> set ''0123456789''"

definition digit_val :: "char \<Rightarrow> int" where
  "digit_val ch = of_char ch - 48"

fun digits_from :: "int \<Rightarrow> string \<Rightarrow> int option" where
  "digits_from acc [] = Some acc"
| "digits_from acc (ch # rest) =
     (if is_digit ch then digits_from (acc * 10 + digit_val ch) rest
      else if ch = CHR ''_'' \<and> rest \<noteq> [] \<and> is_digit (hd rest) then digits_from acc rest
      else None)"

definition MAX_STR_DIGITS :: nat where
  "MAX_STR_DIGITS = 4300"

definition py_digits :: "string \<Rightarrow> int option" where
  "py_digits s =
     (if s \<noteq> [] \<and> is_digit (hd s) \<and> length (filter is_digit s) \<le> MAX_STR_DIGITS
      then digits_from 0 s else None)"

definition py_int :: "string \<Rightarrow> int option" where
  "py_int tok =
     (case tok of
        [] \<Rightarrow> None
      | ch # rest \<Rightarrow>
          if ch = CHR ''-'' then map_option uminus (py_digits rest)
          else if ch = CHR ''+'' then py_digits rest
          else py_digits tok)"

text \<open>
  Storing a Python \<open>int\<close> in a float64 array converts it as \<open>float(v)\<close> does: to the
  nearest number with 53 significant bits, a tie going to the even one, and with an
  \<open>OverflowError\<close> when that number is \<open>2 ^ 1024\<close> or more. \<open>bit_length\<close> is
  \<open>int.bit_length\<close>; \<open>round_half_even n e\<close> is \<open>n / 2 ^ e\<close> rounded to an integer.
\<close>

fun bit_length :: "nat \<Rightarrow> nat" where
  "bit_length n = (if n = 0 then 0 else Suc (bit_length (n div 2)))"

declare bit_length.simps [simp del]

definition round_half_even :: "nat \<Rightarrow> nat \<Rightarrow> nat" where
  "round_half_even n e =
     (let q = n div 2 ^ e; r = n mod 2 ^ e
      in if 2 ^ e < 2 * r \<or> (2 * r = 2 ^ e \<and> odd q) then q + 1 else q)"

definition float_round :: "nat \<Rightarrow> nat \<Rightarrow> nat" where
  "float_round p n =
     (if bit_length n \<le> p then n
      else round_half_even n (bit_length n - p) * 2 ^ (bit_length n - p))"

definition float64 :: "int \<Rightarrow> int" where
  "float64 v = sgn v * int (float_round 53 (nat \<bar>v\<bar>))"

definition np_float64 :: "int \<Rightarrow> error + int" where
  "np_float64 v = (if 2 ^ 1024 \<le> \<bar>float64 v\<bar> then Inl OverflowError else Inr (float64 v))"

text \<open>
  \<open>new_puzzle.tiles[row][i] = v\<close>: the array has four rows, and the row is looked up
  before the value is converted.
\<close>

definition write_tile :: "puzzle \<Rightarrow> int \<Rightarrow> int \<Rightarrow> int \<Rightarrow> error + puzzle" where
  "write_tile p row i v =
     (if row < PUZZLE_WIDTH
      then (case np_float64 v of
              Inl e \<Rightarrow> Inl e
            | Inr f \<Rightarrow> Inr (NumberPuzzle (set_tile (tiles p) row i f) (blank_r p) (blank_c p)
                              (parent p) (dist_from_start p) (key p)))
      else Inl IndexError)"

definition set_blank :: "puzzle \<Rightarrow> int \<Rightarrow> int \<Rightarrow> puzzle" where
  "set_blank p row i = NumberPuzzle (tiles p) row i (parent p) (dist_from_start p) (key p)"

text \<open>The body of \<open>for i in range(PUZZLE_WIDTH)\<close>.\<close>

definition read_cell :: "puzzle \<Rightarrow> int \<Rightarrow> string list \<Rightarrow> int \<Rightarrow> error + puzzle" where
  "read_cell p row tokens i =
     (if \<not> nat i < length tokens then Inl IndexError
      else if tokens ! nat i = ''-''
      then (case write_tile p row i BLANK of
              Inl e \<Rightarrow> Inl e
            | Inr p' \<Rightarrow> Inr (set_blank p' row i))
      else (case py_int (tokens ! nat i) of
              None \<Rightarrow> Inl SystemExit
            | Some v \<Rightarrow> write_tile p row i v))"

fun read_row :: "puzzle \<Rightarrow> int \<Rightarrow> string list \<Rightarrow> int list \<Rightarrow> error + puzzle" where
  "read_row p row tokens [] = Inr p"
| "read_row p row tokens (i # rest) =
     (case read_cell p row tokens i of
        Inl e \<Rightarrow> Inl e
      | Inr p' \<Rightarrow> read_row p' row tokens rest)"

text \<open>The loop \<open>for line in puzzle_string.splitlines()\<close>, with the counter \<open>row\<close>.\<close>

fun read_rows :: "puzzle \<Rightarrow> int \<Rightarrow> string list \<Rightarrow> error + puzzle" where
  "read_rows p row [] = Inr p"
| "read_rows p row (line # rest) =
     (case read_row p row (split line) [0..PUZZLE_WIDTH - 1] of
        Inl e \<Rightarrow> Inl e
      | Inr p' \<Rightarrow> read_rows p' (row + 1) rest)"

definition read_puzzle_string :: "string \<Rightarrow> error + puzzle" where
  "read_puzzle_string puzzle_string = read_rows new_puzzle 0 (splitlines puzzle_string)"

section \<open>Move generation on a store\<close>

text \<open>
  Whether \<open>legal_moves\<close> changes the state it is called on depends on what \<open>copy\<close> and
  \<open>move\<close> share. Here the objects and their numpy arrays live in a store: an object holds
  a reference to its array, \<open>np.zeros\<close> and \<open>np.copy\<close> allocate a new array, and \<open>move\<close>
  writes into the array its object refers to. A reference below the allocation counter is
  in use.
\<close>

type_synonym ref = nat

record object =
  o_tiles :: ref
  o_blank_r :: int
  o_blank_c :: int
  o_parent :: "ref option"
  o_dist_from_start :: int
  o_key :: int

record store =
  objects :: "ref \<Rightarrow> object"
  arrays :: "ref \<Rightarrow> int list list"
  next_object :: ref
  next_array :: ref

definition new_array :: "int list list \<Rightarrow> store \<Rightarrow> ref \<times> store" where
  "new_array a \<sigma> =
     (next_array \<sigma>,
      \<sigma>\<lparr>arrays := (arrays \<sigma>)(next_array \<sigma> := a), next_array := next_array \<sigma> + 1\<rparr>)"

definition update_object :: "ref \<Rightarrow> (object \<Rightarrow> object) \<Rightarrow> store \<Rightarrow> store" where
  "update_object r f \<sigma> = \<sigma>\<lparr>objects := (objects \<sigma>)(r := f (objects \<sigma> r))\<rparr>"

definition write_array :: "ref \<Rightarrow> int \<Rightarrow> int \<Rightarrow> int \<Rightarrow> store \<Rightarrow> store" where
  "write_array a r c v \<sigma> = \<sigma>\<lparr>arrays := (arrays \<sigma>)(a := set_tile (arrays \<sigma> a) r c v)\<rparr>"

text \<open>\<open>NumberPuzzle()\<close>\<close>

definition init_st :: "store \<Rightarrow> ref \<times> store" where
  "init_st \<sigma> =
     (let (a, \<sigma>) = new_array (replicate 4 (replicate 4 0)) \<sigma>;
          self = next_object \<sigma>
      in (self, \<sigma>\<lparr>objects := (objects \<sigma>)(self :=
                    \<lparr>o_tiles = a, o_blank_r = 0, o_blank_c = 0, o_parent = None,
                     o_dist_from_start = 0, o_key = 0\<rparr>),
                  next_object := self + 1\<rparr>))"

text \<open>\<open>self.copy()\<close>, one assignment after the other.\<close>

definition copy_st :: "ref \<Rightarrow> store \<Rightarrow> ref \<times> store" where
  "copy_st self \<sigma> =
     (let (child, \<sigma>) = init_st \<sigma>;
          (a, \<sigma>) = new_array (arrays \<sigma> (o_tiles (objects \<sigma> self))) \<sigma>;
          \<sigma> = update_object child (o_tiles_update (\<lambda>_. a)) \<sigma>;
          \<sigma> = update_object child (o_blank_r_update (\<lambda>_. o_blank_r (objects \<sigma> self))) \<sigma>;
          \<sigma> = update_object child (o_blank_c_update (\<lambda>_. o_blank_c (objects \<sigma> self))) \<sigma>;
          \<sigma> = update_object child
                (o_dist_from_start_update (\<lambda>_. o_dist_from_start (objects \<sigma> self))) \<sigma>;
          \<sigma> = update_object child (o_parent_update (\<lambda>_. Some self)) \<sigma>
      in (child, \<sigma>))"

text \<open>\<open>self.move(tile_row, tile_column)\<close>: both writes go to the array of \<open>self\<close>.\<close>

definition move_st :: "ref \<Rightarrow> int \<Rightarrow> int \<Rightarrow> store \<Rightarrow> store" where
  "move_st self tile_row tile_column \<sigma> =
     (let \<sigma> = write_array (o_tiles (objects \<sigma> self))
                (o_blank_r (objects \<sigma> self)) (o_blank_c (objects \<sigma> self))
                (get_tile (arrays \<sigma> (o_tiles (objects \<sigma> self))) tile_row tile_column) \<sigma>;
          \<sigma> = write_array (o_tiles (objects \<sigma> self)) tile_row tile_column BLANK \<sigma>;
          \<sigma> = update_object self (o_blank_r_update (\<lambda>_. tile_row)) \<sigma>;
          \<sigma> = update_object self (o_blank_c_update (\<lambda>_. tile_column)) \<sigma>;
          \<sigma> = update_object self (o_dist_from_start_update (\<lambda>d. d + 1)) \<sigma>
      in \<sigma>)"

text \<open>
  One \<open>if\<close> block of \<open>legal_moves\<close>: when the test \<open>ok\<close> holds, copy \<open>self\<close>, move the copy to
  the neighbour at offset \<open>(dr, dc)\<close> of the blank of \<open>self\<close>, and append it.
\<close>

definition try_move_st ::
  "ref \<Rightarrow> bool \<Rightarrow> int \<Rightarrow> int \<Rightarrow> ref list \<times> store \<Rightarrow> ref list \<times> store" where
  "try_move_st self ok dr dc = (\<lambda>(legal, \<sigma>).
     if ok
     then (let (result, \<sigma>) = copy_st self \<sigma>;
               \<sigma> = move_st result (o_blank_r (objects \<sigma> self) + dr)
                     (o_blank_c (objects \<sigma> self) + dc) \<sigma>
           in (legal @ [result], \<sigma>))
     else (legal, \<sigma>))"

definition legal_moves_st :: "ref \<Rightarrow> store \<Rightarrow> ref list \<times> store" where
  "legal_moves_st self \<sigma> =
     (let st = ([], \<sigma>);
          st = try_move_st self (o_blank_r (objects (snd st) self) > 0) (- 1) 0 st;
          st = try_move_st self (o_blank_c (objects (snd st) self) > 0) 0 (- 1) st;
          st = try_move_st self (o_blank_r (objects (snd st) self) < PUZZLE_WIDTH - 1) 1 0 st;
          st = try_move_st self (o_blank_c (objects (snd st) self) < PUZZLE_WIDTH - 1) 0 1 st
      in st)"

text \<open>A store leaves everything allocated in an earlier one as it was.\<close>

definition frame :: "store \<Rightarrow> store \<Rightarrow> bool" where
  "frame \<sigma> \<sigma>' \<longleftrightarrow>
     next_object \<sigma> \<le> next_object \<sigma>' \<and> next_array \<sigma> \<le> next_array \<sigma>' \<and>
     (\<forall>r < next_object \<sigma>. objects \<sigma>' r = objects \<sigma> r) \<and>
     (\<forall>a < next_array \<sigma>. arrays \<sigma>' a = arrays \<sigma> a)"

definition allocated :: "store \<Rightarrow> ref \<Rightarrow> bool" where
  "allocated \<sigma> r \<longleftrightarrow> r < next_object \<sigma> \<and> o_tiles (objects \<sigma> r) < next_array \<sigma>"

text \<open>What the pure model keeps of an object, and the same reading of a \<open>puzzle\<close>.\<close>

definition view_st :: "store \<Rightarrow> ref \<Rightarrow> int list list \<times> int \<times> int \<times> int \<times> int" where
  "view_st \<sigma> r =
     (arrays \<sigma> (o_tiles (objects \<sigma> r)), o_blank_r (objects \<sigma> r), o_blank_c (objects \<sigma> r),
      o_dist_from_start (objects \<sigma> r), o_key (objects \<sigma> r))"

definition view :: "puzzle \<Rightarrow> int list list \<times> int \<times> int \<times> int \<times> int" where
  "view s = (tiles s, blank_r s, blank_c s, dist_from_start s, key s)"

section \<open>The puzzle graph and the statements of the specification\<close>

text \<open>Exchanging two cells, and grid adjacency.\<close>

definition swap_cells :: "int list list \<Rightarrow> int \<Rightarrow> int \<Rightarrow> int \<Rightarrow> int \<Rightarrow> int list list" where
  "swap_cells t r c r' c' = set_tile (set_tile t r c (get_tile t r' c')) r' c' (get_tile t r c)"

definition adjacent :: "int \<Rightarrow> int \<Rightarrow> int \<Rightarrow> int \<Rightarrow> bool" where
  "adjacent r c r' c' \<longleftrightarrow> \<bar>r - r'\<bar> + \<bar>c - c'\<bar> = 1"

text \<open>
  One move of a path: the predecessor's blank cell holds 0 and is exchanged with an
  adjacent cell of the grid, which becomes the successor's blank; the cost grows by 1.
\<close>

definition slide_step :: "puzzle \<Rightarrow> puzzle \<Rightarrow> bool" where
  "slide_step a b \<longleftrightarrow>
     blank_ok a \<and> on_grid (blank_r a) (blank_c a) \<and> on_grid (blank_r b) (blank_c b) \<and>
     adjacent (blank_r a) (blank_c a) (blank_r b) (blank_c b) \<and>
     tiles b = swap_cells (tiles a) (blank_r a) (blank_c a) (blank_r b) (blank_c b) \<and>
     dist_from_start b = dist_from_start a + 1"

fun steps_ok :: "puzzle list \<Rightarrow> bool" where
  "steps_ok (a # b # rest) \<longleftrightarrow> slide_step a b \<and> steps_ok (b # rest)"
| "steps_ok _ \<longleftrightarrow> True"

text \<open>
  A walk in the move graph, given by the cells the blank visits: from the arrangement \<open>t\<close>
  with the blank at \<open>(r, c)\<close>, each next cell must be adjacent to the blank. The result is
  the arrangement reached, or \<open>None\<close> when a step is no slide.
\<close>

fun slide_walk :: "int list list \<Rightarrow> int \<times> int \<Rightarrow> (int \<times> int) list \<Rightarrow> int list list option" where
  "slide_walk t (r, c) [] = Some t"
| "slide_walk t (r, c) ((r', c') # rest) =
     (if get_tile t r c = 0 \<and> on_grid r c \<and> on_grid r' c' \<and> adjacent r c r' c'
      then slide_walk (swap_cells t r c r' c') (r', c') rest
      else None)"

text \<open>
  The Manhattan distance sum as the specification words it: every non-blank tile adds the
  distance to the goal cell of its value, \<open>((value - 1) div 4, (value - 1) mod 4)\<close>.
\<close>

definition spec_manhattan :: "puzzle \<Rightarrow> int" where
  "spec_manhattan s =
     (\<Sum>(row, col) \<leftarrow> cells.
        (let v = get_tile (tiles s) row col
         in if v \<noteq> 0 then \<bar>row - (v - 1) div 4\<bar> + \<bar>col - (v - 1) mod 4\<bar> else 0))"

text \<open>The candidate cells of \<open>legal_moves\<close> in the order up, left, down, right.\<close>

definition neighbours :: "puzzle \<Rightarrow> (int \<times> int) list" where
  "neighbours s =
     [(blank_r s - 1, blank_c s), (blank_r s, blank_c s - 1),
      (blank_r s + 1, blank_c s), (blank_r s, blank_c s + 1)]"

section \<open>Results, paths and invariants\<close>

text \<open>What \<open>solve_and_print\<close> reads off the result: the path, if any, the count of explored
  nodes, and the number of steps \<open>len(path) - 1\<close> that \<open>print_steps\<close> reports.\<close>

definition found_path :: "(puzzle list option \<times> int) option \<Rightarrow> puzzle list option" where
  "found_path r = (case r of Some (Some path, explored) \<Rightarrow> Some path | _ \<Rightarrow> None)"

definition explored_count :: "(puzzle list option \<times> int) option \<Rightarrow> int option" where
  "explored_count r = (case r of Some (path, explored) \<Rightarrow> Some explored | None \<Rightarrow> None)"

definition steps :: "puzzle list \<Rightarrow> int" where
  "steps path = int (length path) - 1"

text \<open>
  A state whose predecessor links are all moves: each state with a predecessor is one
  slide away from it.
\<close>

fun chain_ok :: "puzzle \<Rightarrow> bool" where
  "chain_ok (NumberPuzzle t r c None d k) \<longleftrightarrow> True"
| "chain_ok (NumberPuzzle t r c (Some p) d k) \<longleftrightarrow>
     slide_step p (NumberPuzzle t r c (Some p) d k) \<and> chain_ok p"

text \<open>
  The node that \<open>solve\<close> pushes for a child: its key is set and its parent is the expanded
  state.
\<close>

definition keyed :: "bool \<Rightarrow> puzzle \<Rightarrow> puzzle \<Rightarrow> puzzle" where
  "keyed better_h state node =
     set_parent state (set_key (heuristic node better_h + dist_from_start node) node)"

text \<open>
  The 4x4 grids over a set of tile values, and the states on them. A search that starts
  from a grid over \<open>V\<close> (with 0 in \<open>V\<close>) never leaves these grids.
\<close>

definition grids :: "int set \<Rightarrow> int list list set" where
  "grids V = {t. shape4 t \<and> set (concat t) \<subseteq> V}"

definition inv_puzzle :: "int set \<Rightarrow> puzzle \<Rightarrow> bool" where
  "inv_puzzle V s \<longleftrightarrow> wf_puzzle s \<and> set (concat (tiles s)) \<subseteq> V"

text \<open>A returned path is the chain of predecessors of a solved state with the property \<open>Q\<close>.\<close>

definition goal_path :: "(puzzle \<Rightarrow> bool) \<Rightarrow> puzzle list option \<Rightarrow> bool" where
  "goal_path Q r \<longleftrightarrow>
     (case r of None \<Rightarrow> True
      | Some path \<Rightarrow> \<exists>g. Q g \<and> solved g \<and> path = backtrack [g] (parent g))"

text \<open>
  The input holds a \<open>-\<close> among the tokens that the parser reads (the first four of a
  line), and the row of integers that a line of four integer tokens denotes.
\<close>

definition dash_read :: "string \<Rightarrow> bool" where
  "dash_read puzzle_string \<longleftrightarrow>
     (\<exists>line \<in> set (splitlines puzzle_string). ''-'' \<in> set (take 4 (split line)))"






text \<open>
  The parser's invariant before the cell \<open>(row, i)\<close> is read: the array is 4x4, the blank
  is on the grid, and once a \<open>-\<close> was read the blank cell holds 0 and lies before
  \<open>(row, i)\<close> in reading order.
\<close>

definition parsed :: "bool \<Rightarrow> puzzle \<Rightarrow> int \<Rightarrow> int \<Rightarrow> bool" where
  "parsed seen p row i \<longleftrightarrow>
     shape4 (tiles p) \<and> on_grid (blank_r p) (blank_c p) \<and>
     (seen \<longrightarrow> blank_ok p \<and> (blank_r p < row \<or> blank_r p = row \<and> blank_c p < i))"

section \<open>Inputs\<close>

definition NL :: string where
  "NL = [CHR 0x0A]"

text \<open>\<open>zero_moves\<close> and \<open>one_move\<close> of \<open>tests.py\<close>, and the states they parse to.\<close>

definition zero_moves :: string where
  "zero_moves = ''1 2 3 4'' @ NL @ ''5 6 7 8'' @ NL @ ''9 10 11 12'' @ NL @ ''13 14 15 -''"

definition zero_moves_puzzle :: puzzle where
  "zero_moves_puzzle =
     NumberPuzzle [[1, 2, 3, 4], [5, 6, 7, 8], [9, 10, 11, 12], [13, 14, 15, 0]] 3 3 None 0 0"

definition one_move :: string where
  "one_move = ''1 2 3 4'' @ NL @ ''5 6 7 8'' @ NL @ ''9 10 11 12'' @ NL @ ''13 14 - 15''"

definition one_move_puzzle :: puzzle where
  "one_move_puzzle =
     NumberPuzzle [[1, 2, 3, 4], [5, 6, 7, 8], [9, 10, 11, 12], [13, 14, 0, 15]] 3 2 None 0 0"

text \<open>The solved grid with the blank moved up once.\<close>

definition twelve_down :: string where
  "twelve_down = ''1 2 3 4'' @ NL @ ''5 6 7 8'' @ NL @ ''9 10 11 -'' @ NL @ ''13 14 15 12''"

definition twelve_down_puzzle :: puzzle where
  "twelve_down_puzzle =
     NumberPuzzle [[1, 2, 3, 4], [5, 6, 7, 8], [9, 10, 11, 0], [13, 14, 15, 12]] 2 3 None 0 0"

text \<open>A solvable grid nine moves from the goal.\<close>

definition nine_moves :: string where
  "nine_moves = ''1 2 3 4'' @ NL @ ''5 6 7 8'' @ NL @ ''13 9 15 11'' @ NL @ ''10 14 - 12''"

definition nine_moves_puzzle :: puzzle where
  "nine_moves_puzzle =
     NumberPuzzle [[1, 2, 3, 4], [5, 6, 7, 8], [13, 9, 15, 11], [10, 14, 0, 12]] 3 2 None 0 0"

definition nine_moves_walk :: "(int \<times> int) list" where
  "nine_moves_walk = [(3, 1), (3, 0), (2, 0), (2, 1), (3, 1), (3, 2), (2, 2), (2, 3), (3, 3)]"

text \<open>Sixteen integers and no \<open>-\<close>: the blank stays at its initial \<open>(0, 0)\<close>.\<close>

definition no_blank :: string where
  "no_blank = ''16 2 3 4'' @ NL @ ''1 6 7 8'' @ NL @ ''5 10 11 12'' @ NL @ ''9 13 14 15''"

definition no_blank_puzzle :: puzzle where
  "no_blank_puzzle =
     NumberPuzzle [[16, 2, 3, 4], [1, 6, 7, 8], [5, 10, 11, 12], [9, 13, 14, 15]] 0 0 None 0 0"

text \<open>The path that \<open>solve\<close> returns on \<open>one_move\<close> with the mismatch heuristic.\<close>

definition one_move_path :: "puzzle list" where
  "one_move_path =
     [one_move_puzzle, NumberPuzzle (tiles zero_moves_puzzle) 3 3 (Some one_move_puzzle) 1 1]"

text \<open>The tile arrays along the path that \<open>solve\<close> returns on \<open>no_blank\<close>.\<close>

definition no_blank_grids :: "int list list list" where
  "no_blank_grids =
     [[[16, 2, 3, 4], [1, 6, 7, 8], [5, 10, 11, 12], [9, 13, 14, 15]],
      [[1, 2, 3, 4], [0, 6, 7, 8], [5, 10, 11, 12], [9, 13, 14, 15]],
      [[1, 2, 3, 4], [5, 6, 7, 8], [0, 10, 11, 12], [9, 13, 14, 15]],
      [[1, 2, 3, 4], [5, 6, 7, 8], [9, 10, 11, 12], [0, 13, 14, 15]],
      [[1, 2, 3, 4], [5, 6, 7, 8], [9, 10, 11, 12], [13, 0, 14, 15]],
      [[1, 2, 3, 4], [5, 6, 7, 8], [9, 10, 11, 12], [13, 14, 0, 15]],
      [[1, 2, 3, 4], [5, 6, 7, 8], [9, 10, 11, 12], [13, 14, 15, 0]]]"






text \<open>The empty input.\<close>

definition empty_input :: string where
  "empty_input = []"

text \<open>
  A store with one object: the state of \<open>one_move\<close> at reference 0, its array at array
  reference 0.
\<close>

definition start_store :: store where
  "start_store =
     \<lparr>objects = (\<lambda>_. \<lparr>o_tiles = 0, o_blank_r = 3, o_blank_c = 2, o_parent = None,
                       o_dist_from_start = 0, o_key = 0\<rparr>),
      arrays = (\<lambda>_. tiles one_move_puzzle),
      next_object = 1, next_array = 1\<rparr>"

section \<open>The heap keeps its elements\<close>

lemma mset_update_swap:
  assumes "i < length xs" "j < length xs"
  shows "mset (xs[i := xs ! j, j := x]) = mset (xs[i := x])"
proof (cases "i = j")
  case True
  then show ?thesis by simp
next
  case False
  have "mset (xs[i := xs ! j, j := x])
          = add_mset x (mset (xs[i := xs ! j]) - {#xs ! j#})"
    using assms False by (simp add: mset_update)
  also have "mset (xs[i := xs ! j]) = add_mset (xs ! j) (mset xs - {#xs ! i#})"
    using assms by (simp add: mset_update)
  finally show ?thesis using assms by (simp add: mset_update)
qed

lemma siftdown_loop_mset:
  "pos < length heap \<Longrightarrow> mset (siftdown_loop heap newitem startpos pos) = mset (heap[pos := newitem])"
proof (induction heap newitem startpos pos rule: siftdown_loop.induct)
  case (1 heap newitem startpos pos)
  show ?case
  proof (cases "pos > startpos \<and> lt newitem (heap ! ((pos - 1) div 2))")
    case True
    let ?pp = "(pos - 1) div 2"
    have pp: "?pp < length heap" using "1.prems" by linarith
    have "mset (siftdown_loop heap newitem startpos pos)
            = mset (siftdown_loop (heap[pos := heap ! ?pp]) newitem startpos ?pp)"
      using True by (subst siftdown_loop.simps) (simp add: Let_def)
    also have "\<dots> = mset (heap[pos := heap ! ?pp, ?pp := newitem])"
      using "1.IH"[OF _ refl refl] True pp by simp
    also have "\<dots> = mset (heap[pos := newitem])"
      using mset_update_swap[OF "1.prems" pp] .
    finally show ?thesis .
  next
    case False
    then show ?thesis by (subst siftdown_loop.simps) (auto simp: Let_def)
  qed
qed

lemma siftdown_mset: "pos < length heap \<Longrightarrow> mset (siftdown heap startpos pos) = mset heap"
  by (simp add: siftdown_def siftdown_loop_mset)

lemma heappush_mset: "mset (heappush heap item) = add_mset item (mset heap)"
  by (simp add: heappush_def siftdown_mset)

lemma siftup_loop_mset:
  assumes "siftup_loop heap (length heap) pos = (heap', pos')" "pos < length heap"
  shows "length heap' = length heap \<and> pos' < length heap
         \<and> mset (heap'[pos' := x]) = mset (heap[pos := x])"
  using assms
proof (induction "length heap - pos" arbitrary: heap pos rule: less_induct)
  case less
  show ?case
  proof (cases "2 * pos + 1 < length heap")
    case False
    then have "siftup_loop heap (length heap) pos = (heap, pos)"
      by (subst siftup_loop.simps) (simp add: Let_def)
    with less.prems show ?thesis by simp
  next
    case True
    define cp where "cp = (if 2 * pos + 1 + 1 < length heap
                              \<and> \<not> lt (heap ! (2 * pos + 1)) (heap ! (2 * pos + 1 + 1))
                           then 2 * pos + 1 + 1 else 2 * pos + 1)"
    define heap1 where "heap1 = heap[pos := heap ! cp]"
    have cp: "cp < length heap" "pos < cp" using True by (simp_all add: cp_def)
    have len: "length heap1 = length heap" by (simp add: heap1_def)
    have "siftup_loop heap (length heap) pos = siftup_loop heap1 (length heap) cp"
      using True by (subst siftup_loop.simps) (simp add: Let_def cp_def heap1_def)
    then have step: "siftup_loop heap1 (length heap1) cp = (heap', pos')"
      using less.prems(1) len by simp
    have "length heap1 - cp < length heap - pos" using cp len by simp
    from less.hyps[OF this step] cp len
    have "length heap' = length heap1 \<and> pos' < length heap1
            \<and> mset (heap'[pos' := x]) = mset (heap1[cp := x])" by simp
    then show ?thesis
      using mset_update_swap[OF less.prems(2) cp(1)] len by (simp add: heap1_def)
  qed
qed

lemma siftup_mset:
  assumes "pos < length heap"
  shows "mset (siftup heap pos) = mset heap"
proof -
  obtain heap' pos' where s: "siftup_loop heap (length heap) pos = (heap', pos')" by fastforce
  from siftup_loop_mset[OF s assms, of "heap ! pos"]
  have l: "length heap' = length heap" "pos' < length heap"
    and m: "mset (heap'[pos' := heap ! pos]) = mset heap" by simp_all
  have "siftup heap pos = siftdown (heap'[pos' := heap ! pos]) pos pos'"
    by (simp add: siftup_def s Let_def)
  then show ?thesis using l m by (simp add: siftdown_mset)
qed

lemma heappop_mset:
  assumes "heap \<noteq> []"
  shows "add_mset (fst (heappop heap)) (mset (snd (heappop heap))) = mset heap"
proof -
  obtain b l where h: "heap = b @ [l]"
    using assms by (metis append_butlast_last_id)
  show ?thesis
  proof (cases b)
    case Nil
    then show ?thesis by (simp add: h heappop_def)
  next
    case (Cons x xs)
    have "mset (siftup (l # xs) 0) = mset (l # xs)"
      by (rule siftup_mset) simp
    then show ?thesis by (simp add: h Cons heappop_def)
  qed
qed

section \<open>The inputs parse to the states above\<close>

lemma parse_zero_moves: "read_puzzle_string zero_moves = Inr zero_moves_puzzle"
  by code_simp

lemma parse_one_move: "read_puzzle_string one_move = Inr one_move_puzzle"
  by code_simp

lemma parse_twelve_down: "read_puzzle_string twelve_down = Inr twelve_down_puzzle"
  by code_simp

lemma parse_nine_moves: "read_puzzle_string nine_moves = Inr nine_moves_puzzle"
  by code_simp

lemma parse_no_blank: "read_puzzle_string no_blank = Inr no_blank_puzzle"
  by code_simp

section \<open>The heuristics\<close>

text \<open>
  Claim C2: the Manhattan heuristic is the sum, over the non-blank tiles, of
  \<open>|row - goal_row| + |col - goal_col|\<close> with \<open>goal_row = (value - 1) div 4\<close> and
  \<open>goal_col = (value - 1) mod 4\<close>. The code divides the value itself, not the value minus
  one: with the blank moved up once from the solved grid, tile 12 sits one cell below its
  goal cell, the specification's sum is 1, and \<open>manhattan_heuristic\<close> returns 3.
\<close>

theorem manhattan_not_spec:
  "read_puzzle_string twelve_down = Inr twelve_down_puzzle
   \<and> heuristic twelve_down_puzzle True = 3 \<and> spec_manhattan twelve_down_puzzle = 1"
proof -
  have "heuristic twelve_down_puzzle True = 3" by code_simp
  moreover have "spec_manhattan twelve_down_puzzle = 1" by code_simp
  ultimately show ?thesis using parse_twelve_down by simp
qed

text \<open>
  Claim C3: the Manhattan heuristic is never below the tile-mismatch heuristic. On
  \<open>one_move\<close> of \<open>tests.py\<close> the code's Manhattan value is 0 (tile 15 in the last cell is
  where \<open>15 div 4\<close> and \<open>15 mod 4\<close> point) and the mismatch count is 1.
\<close>

theorem manhattan_below_mismatch:
  "read_puzzle_string one_move = Inr one_move_puzzle
   \<and> heuristic one_move_puzzle True = 0 \<and> heuristic one_move_puzzle False = 1"
proof -
  have "heuristic one_move_puzzle True = 0" by code_simp
  moreover have "heuristic one_move_puzzle False = 1" by code_simp
  ultimately show ?thesis using parse_one_move by simp
qed

section \<open>Move generation\<close>

text \<open>
  Claim C4: \<open>legal_moves\<close> yields its children in the order up, left, down, right: it is
  the list of the four neighbours of the blank in that order, restricted to those on the
  grid, each turned into the child that \<open>move\<close> makes of a copy.
\<close>

theorem legal_moves_order:
  assumes "on_grid (blank_r s) (blank_c s)"
  shows "legal_moves s = map (\<lambda>(r, c). move (copy s) r c)
           (filter (\<lambda>(r, c). on_grid r c) (neighbours s))"
  using assms by (auto simp: legal_moves_def neighbours_def on_grid_def PUZZLE_WIDTH_def Let_def)

theorem legal_moves_order_witness:
  "on_grid (blank_r one_move_puzzle) (blank_c one_move_puzzle)
   \<and> map (\<lambda>s. (blank_r s, blank_c s)) (legal_moves one_move_puzzle) = [(2, 2), (3, 1), (3, 3)]"
proof -
  have g: "on_grid (blank_r one_move_puzzle) (blank_c one_move_puzzle)" by code_simp
  have "map (\<lambda>s. (blank_r s, blank_c s)) (map (\<lambda>(r, c). move (copy one_move_puzzle) r c)
           (filter (\<lambda>(r, c). on_grid r c) (neighbours one_move_puzzle))) = [(2, 2), (3, 1), (3, 3)]"
    by code_simp
  with legal_moves_order[OF g] g show ?thesis by simp
qed

subsection \<open>Writing a cell of a 4x4 array\<close>

lemma shape4_row: "shape4 t \<Longrightarrow> 0 \<le> r \<Longrightarrow> r < 4 \<Longrightarrow> length (t ! nat r) = 4"
  by (simp add: shape4_def)

lemma get_set_tile:
  assumes "shape4 t" "on_grid r c" "on_grid r' c'"
  shows "get_tile (set_tile t r c v) r' c' = (if r = r' \<and> c = c' then v else get_tile t r' c')"
proof -
  have l: "nat r < length t" "nat r' < length t"
    using assms by (auto simp: shape4_def on_grid_def PUZZLE_WIDTH_def)
  have c: "nat c < length (t ! nat r)"
    using assms shape4_row[of t r] by (auto simp: on_grid_def PUZZLE_WIDTH_def)
  have e: "nat r = nat r' \<longleftrightarrow> r = r'" "nat c = nat c' \<longleftrightarrow> c = c'"
    using assms by (auto simp: on_grid_def)
  show ?thesis
    using l c e by (auto simp: get_tile_def set_tile_def nth_list_update)
qed

lemma shape4_set_tile:
  assumes "shape4 t"
  shows "shape4 (set_tile t r c v)"
proof (cases "nat r < length t")
  case False
  then show ?thesis using assms by (simp add: set_tile_def list_update_beyond)
next
  case True
  then have "length ((t ! nat r)[nat c := v]) = 4"
    using assms by (simp add: shape4_def)
  moreover have "set (set_tile t r c v) \<subseteq> insert ((t ! nat r)[nat c := v]) (set t)"
    unfolding set_tile_def by (rule set_update_subset_insert)
  ultimately show ?thesis using assms by (auto simp: shape4_def set_tile_def)
qed

lemma vals_set_tile: "set (concat (set_tile t r c v)) \<subseteq> insert v (set (concat t))"
proof (cases "nat r < length t")
  case False
  then show ?thesis by (auto simp: set_tile_def list_update_beyond)
next
  case True
  have a: "set (set_tile t r c v) \<subseteq> insert ((t ! nat r)[nat c := v]) (set t)"
    unfolding set_tile_def by (rule set_update_subset_insert)
  have b: "set ((t ! nat r)[nat c := v]) \<subseteq> insert v (set (t ! nat r))"
    by (rule set_update_subset_insert)
  have c: "set (t ! nat r) \<subseteq> set (concat t)"
    using nth_mem[OF True] by auto
  show ?thesis using a b c by auto
qed

lemma get_tile_in:
  assumes "shape4 t" "on_grid r c"
  shows "get_tile t r c \<in> set (concat t)"
proof -
  have l: "nat r < length t"
    using assms by (auto simp: shape4_def on_grid_def PUZZLE_WIDTH_def)
  have c: "nat c < length (t ! nat r)"
    using assms shape4_row[of t r] by (auto simp: on_grid_def PUZZLE_WIDTH_def)
  have "t ! nat r ! nat c \<in> set (t ! nat r)" using c by simp
  moreover have "t ! nat r \<in> set t" using l by simp
  ultimately show ?thesis by (auto simp: get_tile_def)
qed

subsection \<open>The children of a state\<close>

lemma legal_moves_cases:
  assumes "c \<in> set (legal_moves s)" "on_grid (blank_r s) (blank_c s)"
  shows "\<exists>r' c'. on_grid r' c' \<and> adjacent (blank_r s) (blank_c s) r' c' \<and> c = move (copy s) r' c'"
proof -
  have "c = move (copy s) (blank_r s - 1) (blank_c s) \<and> on_grid (blank_r s - 1) (blank_c s)
      \<or> c = move (copy s) (blank_r s) (blank_c s - 1) \<and> on_grid (blank_r s) (blank_c s - 1)
      \<or> c = move (copy s) (blank_r s + 1) (blank_c s) \<and> on_grid (blank_r s + 1) (blank_c s)
      \<or> c = move (copy s) (blank_r s) (blank_c s + 1) \<and> on_grid (blank_r s) (blank_c s + 1)"
    using assms by (auto simp: legal_moves_def on_grid_def PUZZLE_WIDTH_def Let_def split: if_splits)
  moreover have "adjacent (blank_r s) (blank_c s) (blank_r s - 1) (blank_c s)"
    "adjacent (blank_r s) (blank_c s) (blank_r s) (blank_c s - 1)"
    "adjacent (blank_r s) (blank_c s) (blank_r s + 1) (blank_c s)"
    "adjacent (blank_r s) (blank_c s) (blank_r s) (blank_c s + 1)"
    by (simp_all add: adjacent_def)
  ultimately show ?thesis by blast
qed

lemma length_legal_moves: "length (legal_moves s) \<le> 4"
  by (simp add: legal_moves_def Let_def)

lemma move_copy_fields:
  "tiles (move (copy s) r' c') =
     set_tile (set_tile (tiles s) (blank_r s) (blank_c s) (get_tile (tiles s) r' c')) r' c' 0"
  "blank_r (move (copy s) r' c') = r'"
  "blank_c (move (copy s) r' c') = c'"
  "parent (move (copy s) r' c') = Some s"
  "dist_from_start (move (copy s) r' c') = dist_from_start s + 1"
  "key (move (copy s) r' c') = 0"
  by (simp_all add: move_def copy_def Let_def BLANK_def)

lemma keyed_fields:
  "tiles (keyed h st c) = tiles c"
  "blank_r (keyed h st c) = blank_r c"
  "blank_c (keyed h st c) = blank_c c"
  "parent (keyed h st c) = Some st"
  "dist_from_start (keyed h st c) = dist_from_start c"
  by (simp_all add: keyed_def set_parent_def set_key_def)

lemma inv_child:
  assumes "inv_puzzle V s" "0 \<in> V" "c \<in> set (legal_moves s)"
  shows "inv_puzzle V (keyed h s c)"
proof -
  have g: "on_grid (blank_r s) (blank_c s)" and sh: "shape4 (tiles s)"
    and v: "set (concat (tiles s)) \<subseteq> V"
    using assms(1) by (auto simp: inv_puzzle_def wf_puzzle_def)
  obtain r' c' where n: "on_grid r' c'" "c = move (copy s) r' c'"
    using legal_moves_cases[OF assms(3) g] by blast
  have "get_tile (tiles s) r' c' \<in> V" using get_tile_in[OF sh n(1)] v by blast
  then have "set (concat (tiles c)) \<subseteq> V"
    unfolding n(2) move_copy_fields
    using v assms(2) vals_set_tile[of "set_tile (tiles s) (blank_r s) (blank_c s) (get_tile (tiles s) r' c')" r' c' 0]
      vals_set_tile[of "tiles s" "blank_r s" "blank_c s" "get_tile (tiles s) r' c'"]
    by blast
  moreover have "shape4 (tiles c)"
    unfolding n(2) move_copy_fields using sh by (intro shape4_set_tile)
  ultimately show ?thesis
    using n by (simp add: inv_puzzle_def wf_puzzle_def keyed_fields move_copy_fields)
qed

lemma child_blank_ok:
  assumes "wf_puzzle s" "c \<in> set (legal_moves s)"
  shows "blank_ok c \<and> wf_puzzle c"
proof -
  have g: "on_grid (blank_r s) (blank_c s)" and sh: "shape4 (tiles s)"
    using assms(1) by (auto simp: wf_puzzle_def)
  obtain r' c' where n: "on_grid r' c'" "c = move (copy s) r' c'"
    using legal_moves_cases[OF assms(2) g] by blast
  let ?t1 = "set_tile (tiles s) (blank_r s) (blank_c s) (get_tile (tiles s) r' c')"
  have sh1: "shape4 ?t1" using sh by (rule shape4_set_tile)
  have "get_tile (set_tile ?t1 r' c' 0) r' c' = 0"
    using get_set_tile[OF sh1 n(1) n(1)] by simp
  moreover have "shape4 (set_tile ?t1 r' c' 0)" using sh1 by (rule shape4_set_tile)
  ultimately show ?thesis
    using n by (simp add: blank_ok_def wf_puzzle_def move_copy_fields)
qed

lemma child_slide_step:
  assumes "wf_puzzle s" "blank_ok s" "c \<in> set (legal_moves s)"
  shows "slide_step s (keyed h s c)"
proof -
  have g: "on_grid (blank_r s) (blank_c s)"
    using assms(1) by (auto simp: wf_puzzle_def)
  obtain r' c' where n: "on_grid r' c'" "adjacent (blank_r s) (blank_c s) r' c'"
    "c = move (copy s) r' c'"
    using legal_moves_cases[OF assms(3) g] by blast
  have z: "get_tile (tiles s) (blank_r s) (blank_c s) = 0"
    using assms(2) by (simp add: blank_ok_def)
  show ?thesis
    using assms(2) g n z
    by (simp add: slide_step_def keyed_fields move_copy_fields swap_cells_def)
qed

lemma keyed_blank_ok: "blank_ok (keyed h s c) \<longleftrightarrow> blank_ok c"
  by (simp add: blank_ok_def keyed_fields)

lemma chain_ok_parent:
  "parent g = Some p \<Longrightarrow> chain_ok g \<longleftrightarrow> slide_step p g \<and> chain_ok p"
  by (cases g) simp

lemma child_chain:
  assumes "inv_puzzle V s \<and> blank_ok s \<and> chain_ok s" "0 \<in> V" "c \<in> set (legal_moves s)"
  shows "inv_puzzle V (keyed h s c) \<and> blank_ok (keyed h s c) \<and> chain_ok (keyed h s c)"
proof -
  have w: "wf_puzzle s" using assms(1) by (simp add: inv_puzzle_def)
  have "chain_ok (keyed h s c)"
    using chain_ok_parent[of "keyed h s c" s] child_slide_step[OF w _ assms(3), of h] assms(1)
    by (simp add: keyed_fields)
  then show ?thesis
    using inv_child[OF _ assms(2,3), of h] child_blank_ok[OF w assms(3)] assms(1)
    by (simp add: keyed_blank_ok)
qed

section \<open>Move generation leaves the store as it was\<close>

lemma frame_refl: "frame \<sigma> \<sigma>"
  by (simp add: frame_def)

lemma frame_trans: "frame \<sigma> \<sigma>' \<Longrightarrow> frame \<sigma>' \<sigma>'' \<Longrightarrow> frame \<sigma> \<sigma>''"
  by (auto simp: frame_def)

lemma copy_st_frame:
  assumes "copy_st self \<sigma> = (child, \<sigma>')"
  shows "frame \<sigma> \<sigma>' \<and> next_object \<sigma> \<le> child \<and> child < next_object \<sigma>'
         \<and> next_array \<sigma> \<le> o_tiles (objects \<sigma>' child)
         \<and> o_tiles (objects \<sigma>' child) < next_array \<sigma>'"
  using assms
  by (auto simp: copy_st_def init_st_def new_array_def update_object_def frame_def Let_def
       split: prod.splits)

lemma move_st_frame:
  assumes "next_object \<sigma>0 \<le> child" "next_array \<sigma>0 \<le> o_tiles (objects \<sigma> child)" "frame \<sigma>0 \<sigma>"
  shows "frame \<sigma>0 (move_st child r c \<sigma>)"
  using assms
  by (auto simp: move_st_def write_array_def update_object_def frame_def Let_def)

lemma move_st_next:
  "next_object (move_st child r c \<sigma>) = next_object \<sigma>"
  "next_array (move_st child r c \<sigma>) = next_array \<sigma>"
  by (auto simp: move_st_def write_array_def update_object_def Let_def)

lemma try_move_st_frame:
  assumes "try_move_st self ok dr dc (legal, \<sigma>) = (legal', \<sigma>')" "frame \<sigma>0 \<sigma>"
    "\<forall>c \<in> set legal. next_object \<sigma>0 \<le> c \<and> c < next_object \<sigma>"
  shows "frame \<sigma>0 \<sigma>' \<and> (\<forall>c \<in> set legal'. next_object \<sigma>0 \<le> c \<and> c < next_object \<sigma>')"
proof (cases ok)
  case False
  with assms show ?thesis by (simp add: try_move_st_def)
next
  case True
  obtain child \<sigma>1 where c: "copy_st self \<sigma> = (child, \<sigma>1)" by fastforce
  note f = copy_st_frame[OF c]
  have f01: "frame \<sigma>0 \<sigma>1" using assms(2) f frame_trans by blast
  have le: "next_object \<sigma>0 \<le> next_object \<sigma>" "next_array \<sigma>0 \<le> next_array \<sigma>"
    using assms(2) by (auto simp: frame_def)
  define \<sigma>2 where
    "\<sigma>2 = move_st child (o_blank_r (objects \<sigma>1 self) + dr) (o_blank_c (objects \<sigma>1 self) + dc) \<sigma>1"
  have "frame \<sigma>0 \<sigma>2" unfolding \<sigma>2_def
    by (rule move_st_frame) (use f f01 le in auto)
  moreover have "legal' = legal @ [child]" "\<sigma>' = \<sigma>2"
    using assms(1) True c by (auto simp: try_move_st_def \<sigma>2_def)
  moreover have "next_object \<sigma>2 = next_object \<sigma>1" by (simp add: \<sigma>2_def move_st_next)
  moreover have "next_object \<sigma> \<le> next_object \<sigma>1" using f by (simp add: frame_def)
  ultimately show ?thesis using assms(3) f le by fastforce
qed

lemma legal_moves_st_frame:
  assumes "legal_moves_st self \<sigma> = (legal, \<sigma>')"
  shows "frame \<sigma> \<sigma>' \<and> (\<forall>c \<in> set legal. next_object \<sigma> \<le> c \<and> c < next_object \<sigma>')"
proof -
  obtain l1 \<sigma>1 where s1:
    "try_move_st self (o_blank_r (objects \<sigma> self) > 0) (- 1) 0 ([], \<sigma>) = (l1, \<sigma>1)"
    by fastforce
  obtain l2 \<sigma>2 where s2:
    "try_move_st self (o_blank_c (objects \<sigma>1 self) > 0) 0 (- 1) (l1, \<sigma>1) = (l2, \<sigma>2)"
    by fastforce
  obtain l3 \<sigma>3 where s3:
    "try_move_st self (o_blank_r (objects \<sigma>2 self) < PUZZLE_WIDTH - 1) 1 0 (l2, \<sigma>2) = (l3, \<sigma>3)"
    by fastforce
  obtain l4 \<sigma>4 where s4:
    "try_move_st self (o_blank_c (objects \<sigma>3 self) < PUZZLE_WIDTH - 1) 0 1 (l3, \<sigma>3) = (l4, \<sigma>4)"
    by fastforce
  have e: "legal = l4" "\<sigma>' = \<sigma>4"
    using assms s1 s2 s3 s4 by (simp_all add: legal_moves_st_def Let_def)
  note f1 = try_move_st_frame[OF s1 frame_refl]
  have f1': "frame \<sigma> \<sigma>1 \<and> (\<forall>c \<in> set l1. next_object \<sigma> \<le> c \<and> c < next_object \<sigma>1)"
    using f1 by simp
  note f2 = try_move_st_frame[OF s2 conjunct1[OF f1'] conjunct2[OF f1']]
  note f3 = try_move_st_frame[OF s3 conjunct1[OF f2] conjunct2[OF f2]]
  note f4 = try_move_st_frame[OF s4 conjunct1[OF f3] conjunct2[OF f3]]
  show ?thesis using f4 e by simp
qed

text \<open>
  The store model and the value model agree: read through \<open>view_st\<close>, the objects that
  \<open>legal_moves_st\<close> returns are the children that \<open>legal_moves\<close> computes, in the same
  order, each with \<open>self\<close> as its parent.
\<close>

lemma frame_view:
  assumes "frame \<sigma> \<sigma>'" "allocated \<sigma> r"
  shows "view_st \<sigma>' r = view_st \<sigma> r \<and> allocated \<sigma>' r
         \<and> o_parent (objects \<sigma>' r) = o_parent (objects \<sigma> r)"
  using assms by (auto simp: frame_def allocated_def view_st_def)

lemma copy_st_view:
  assumes "copy_st self \<sigma> = (child, \<sigma>')" "allocated \<sigma> self"
  shows "view_st \<sigma>' child =
           (arrays \<sigma> (o_tiles (objects \<sigma> self)), o_blank_r (objects \<sigma> self),
            o_blank_c (objects \<sigma> self), o_dist_from_start (objects \<sigma> self), 0)
         \<and> o_parent (objects \<sigma>' child) = Some self \<and> allocated \<sigma>' child"
  using assms
  by (auto simp: copy_st_def init_st_def new_array_def update_object_def allocated_def
       view_st_def Let_def split: prod.splits)

lemma move_st_view:
  "view_st (move_st r tr tc \<sigma>) r =
     (set_tile (set_tile (arrays \<sigma> (o_tiles (objects \<sigma> r))) (o_blank_r (objects \<sigma> r))
        (o_blank_c (objects \<sigma> r)) (get_tile (arrays \<sigma> (o_tiles (objects \<sigma> r))) tr tc)) tr tc 0,
      tr, tc, o_dist_from_start (objects \<sigma> r) + 1, o_key (objects \<sigma> r))"
  "o_parent (objects (move_st r tr tc \<sigma>) r) = o_parent (objects \<sigma> r)"
  "allocated (move_st r tr tc \<sigma>) r = allocated \<sigma> r"
  by (simp_all add: move_st_def write_array_def update_object_def view_st_def allocated_def
       Let_def BLANK_def)

lemma view_move_copy:
  "view (move (copy s) r c) =
     (set_tile (set_tile (tiles s) (blank_r s) (blank_c s) (get_tile (tiles s) r c)) r c 0,
      r, c, dist_from_start s + 1, 0)"
  by (simp add: view_def move_def copy_def Let_def BLANK_def)

lemma try_move_st_view:
  assumes "try_move_st self True dr dc (legal, \<sigma>) = (legal', \<sigma>')"
    and "allocated \<sigma> self" "view_st \<sigma> self = view s"
  shows "\<exists>child. legal' = legal @ [child]
           \<and> view_st \<sigma>' child = view (move (copy s) (blank_r s + dr) (blank_c s + dc))
           \<and> o_parent (objects \<sigma>' child) = Some self \<and> allocated \<sigma>' child"
proof -
  obtain child \<sigma>1 where c: "copy_st self \<sigma> = (child, \<sigma>1)" by fastforce
  note cv = copy_st_view[OF c assms(2)]
  have f: "frame \<sigma> \<sigma>1" using copy_st_frame[OF c] by simp
  have self1: "view_st \<sigma>1 self = view s"
    using frame_view[OF f assms(2)] assms(3) by simp
  have b: "o_blank_r (objects \<sigma>1 self) = blank_r s" "o_blank_c (objects \<sigma>1 self) = blank_c s"
    using self1 by (simp_all add: view_st_def view_def)
  have v: "arrays \<sigma> (o_tiles (objects \<sigma> self)) = tiles s" "o_blank_r (objects \<sigma> self) = blank_r s"
    "o_blank_c (objects \<sigma> self) = blank_c s" "o_dist_from_start (objects \<sigma> self) = dist_from_start s"
    using assms(3) by (simp_all add: view_st_def view_def)
  have cv': "arrays \<sigma>1 (o_tiles (objects \<sigma>1 child)) = tiles s"
    "o_blank_r (objects \<sigma>1 child) = blank_r s" "o_blank_c (objects \<sigma>1 child) = blank_c s"
    "o_dist_from_start (objects \<sigma>1 child) = dist_from_start s" "o_key (objects \<sigma>1 child) = 0"
    using cv v by (simp_all add: view_st_def)
  have e: "legal' = legal @ [child]"
    "\<sigma>' = move_st child (blank_r s + dr) (blank_c s + dc) \<sigma>1"
    using assms(1) c b by (simp_all add: try_move_st_def)
  show ?thesis
    using cv by (simp add: e move_st_view cv' view_move_copy)
qed

lemma try_move_st_store:
  "snd (try_move_st self ok dr dc (legal, \<sigma>)) = snd (try_move_st self ok dr dc ([], \<sigma>))"
  by (simp add: try_move_st_def Let_def split: prod.splits)

lemma try_move_st_frame_self:
  assumes "try_move_st self ok dr dc (legal, \<sigma>) = (legal', \<sigma>')"
  shows "frame \<sigma> \<sigma>'"
proof -
  have "try_move_st self ok dr dc ([], \<sigma>) = (fst (try_move_st self ok dr dc ([], \<sigma>)), \<sigma>')"
    using assms try_move_st_store[of self ok dr dc legal \<sigma>] by (simp add: prod_eq_iff)
  from try_move_st_frame[OF this frame_refl] show ?thesis by simp
qed

lemma try_move_st_step:
  assumes t: "try_move_st self ok dr dc (legal, \<sigma>) = (legal', \<sigma>')"
    and a: "allocated \<sigma> self" and v: "view_st \<sigma> self = view s"
    and la: "\<forall>c \<in> set legal. allocated \<sigma> c \<and> o_parent (objects \<sigma> c) = Some self"
  shows "allocated \<sigma>' self \<and> view_st \<sigma>' self = view s
         \<and> (\<forall>c \<in> set legal'. allocated \<sigma>' c \<and> o_parent (objects \<sigma>' c) = Some self)
         \<and> map (view_st \<sigma>') legal' = map (view_st \<sigma>) legal @
              (if ok then [view (move (copy s) (blank_r s + dr) (blank_c s + dc))] else [])"
proof -
  note f = try_move_st_frame_self[OF t]
  have self: "allocated \<sigma>' self \<and> view_st \<sigma>' self = view s"
    using frame_view[OF f a] v by simp
  have old: "\<forall>c \<in> set legal. allocated \<sigma>' c \<and> o_parent (objects \<sigma>' c) = Some self
               \<and> view_st \<sigma>' c = view_st \<sigma> c"
    using frame_view[OF f] la by simp
  show ?thesis
  proof (cases ok)
    case False
    then have "legal' = legal" using t by (simp add: try_move_st_def)
    then show ?thesis using self old False by simp
  next
    case True
    have t': "try_move_st self True dr dc (legal, \<sigma>) = (legal', \<sigma>')"
      using t True by simp
    from try_move_st_view[OF t' a v] obtain child where
      c: "legal' = legal @ [child]"
        "view_st \<sigma>' child = view (move (copy s) (blank_r s + dr) (blank_c s + dc))"
        "o_parent (objects \<sigma>' child) = Some self" "allocated \<sigma>' child"
      by blast
    show ?thesis using self old True c by simp
  qed
qed

lemma legal_moves_st_view:
  assumes l: "legal_moves_st self \<sigma> = (legal, \<sigma>')"
    and a: "allocated \<sigma> self" and v: "view_st \<sigma> self = view s"
  shows "map (view_st \<sigma>') legal = map view (legal_moves s)
         \<and> (\<forall>c \<in> set legal. o_parent (objects \<sigma>' c) = Some self)"
proof -
  have b: "\<And>\<tau>. view_st \<tau> self = view s \<Longrightarrow>
             o_blank_r (objects \<tau> self) = blank_r s \<and> o_blank_c (objects \<tau> self) = blank_c s"
    by (simp add: view_st_def view_def)
  obtain l1 \<sigma>1 where s1:
    "try_move_st self (blank_r s > 0) (- 1) 0 ([], \<sigma>) = (l1, \<sigma>1)"
    by fastforce
  note r1 = try_move_st_step[OF s1 a v]
  have q1: "allocated \<sigma>1 self" "view_st \<sigma>1 self = view s"
    "\<forall>c \<in> set l1. allocated \<sigma>1 c \<and> o_parent (objects \<sigma>1 c) = Some self"
    using r1 by simp_all
  obtain l2 \<sigma>2 where s2:
    "try_move_st self (blank_c s > 0) 0 (- 1) (l1, \<sigma>1) = (l2, \<sigma>2)"
    by fastforce
  note r2 = try_move_st_step[OF s2 q1]
  have q2: "allocated \<sigma>2 self" "view_st \<sigma>2 self = view s"
    "\<forall>c \<in> set l2. allocated \<sigma>2 c \<and> o_parent (objects \<sigma>2 c) = Some self"
    using r2 by simp_all
  obtain l3 \<sigma>3 where s3:
    "try_move_st self (blank_r s < PUZZLE_WIDTH - 1) 1 0 (l2, \<sigma>2) = (l3, \<sigma>3)"
    by fastforce
  note r3 = try_move_st_step[OF s3 q2]
  have q3: "allocated \<sigma>3 self" "view_st \<sigma>3 self = view s"
    "\<forall>c \<in> set l3. allocated \<sigma>3 c \<and> o_parent (objects \<sigma>3 c) = Some self"
    using r3 by simp_all
  obtain l4 \<sigma>4 where s4:
    "try_move_st self (blank_c s < PUZZLE_WIDTH - 1) 0 1 (l3, \<sigma>3) = (l4, \<sigma>4)"
    by fastforce
  note r4 = try_move_st_step[OF s4 q3]
  have e: "legal = l4" "\<sigma>' = \<sigma>4"
    using l s1 s2 s3 s4 b[OF v] b[OF q1(2)] b[OF q2(2)] b[OF q3(2)]
    by (simp_all add: legal_moves_st_def Let_def)
  have "map (view_st \<sigma>4) l4 = map view (legal_moves s)"
    using r1 r2 r3 r4 by (simp add: legal_moves_def Let_def)
  then show ?thesis using r4 e by simp
qed

text \<open>
  Claim C9: \<open>legal_moves\<close> leaves the state it is called on unchanged. On the store, the
  object of \<open>self\<close> (array reference, blank position, parent, cost, key) and the contents
  of its array are the same after the call; so is every object and array that was
  allocated before it; and every reference returned is a new one.
\<close>

theorem legal_moves_frame:
  assumes "allocated \<sigma> self" and "legal_moves_st self \<sigma> = (legal, \<sigma>')"
  shows "objects \<sigma>' self = objects \<sigma> self
         \<and> arrays \<sigma>' (o_tiles (objects \<sigma> self)) = arrays \<sigma> (o_tiles (objects \<sigma> self))
         \<and> frame \<sigma> \<sigma>'
         \<and> (\<forall>c \<in> set legal. next_object \<sigma> \<le> c \<and> c < next_object \<sigma>')"
  using legal_moves_st_frame[OF assms(2)] assms(1)
  by (simp add: frame_def allocated_def)

theorem legal_moves_frame_witness:
  "objects (snd (legal_moves_st 0 start_store)) 0 = objects start_store 0
   \<and> arrays (snd (legal_moves_st 0 start_store)) 0 = tiles one_move_puzzle
   \<and> map (view_st (snd (legal_moves_st 0 start_store))) (fst (legal_moves_st 0 start_store)) =
        [([[1, 2, 3, 4], [5, 6, 7, 8], [9, 10, 0, 12], [13, 14, 11, 15]], 2, 2, 1, 0),
         ([[1, 2, 3, 4], [5, 6, 7, 8], [9, 10, 11, 12], [13, 0, 14, 15]], 3, 1, 1, 0),
         ([[1, 2, 3, 4], [5, 6, 7, 8], [9, 10, 11, 12], [13, 14, 15, 0]], 3, 3, 1, 0)]"
proof -
  have a: "allocated start_store 0" by (simp add: allocated_def start_store_def)
  have l: "legal_moves_st 0 start_store =
             (fst (legal_moves_st 0 start_store), snd (legal_moves_st 0 start_store))"
    by simp
  have v: "view_st start_store 0 = view one_move_puzzle"
    by (simp add: view_st_def view_def start_store_def one_move_puzzle_def)
  have p: "map view (legal_moves one_move_puzzle) =
        [([[1, 2, 3, 4], [5, 6, 7, 8], [9, 10, 0, 12], [13, 14, 11, 15]], 2, 2, 1, 0),
         ([[1, 2, 3, 4], [5, 6, 7, 8], [9, 10, 11, 12], [13, 0, 14, 15]], 3, 1, 1, 0),
         ([[1, 2, 3, 4], [5, 6, 7, 8], [9, 10, 11, 12], [13, 14, 15, 0]], 3, 3, 1, 0)]"
    by code_simp
  have s: "arrays start_store (o_tiles (objects start_store 0)) = tiles one_move_puzzle"
    "o_tiles (objects start_store 0) = 0"
    by (simp_all add: start_store_def)
  from legal_moves_frame[OF a l] legal_moves_st_view[OF l a v] p s show ?thesis by simp
qed

section \<open>The float64 conversion\<close>












lemma np_float64_0: "np_float64 0 = Inr 0"
  by (simp add: np_float64_def float64_def)





section \<open>The parser\<close>

lemma range4: "[0..PUZZLE_WIDTH - 1] = [0, 1, 2, 3]"
  by code_simp

lemma write_tile_Inr:
  assumes "write_tile p row i v = Inr p'"
  shows "row < 4 \<and> (\<exists>f. p' = NumberPuzzle (set_tile (tiles p) row i f) (blank_r p) (blank_c p)
                               (parent p) (dist_from_start p) (key p))"
  using assms by (auto simp: write_tile_def PUZZLE_WIDTH_def split: if_splits sum.splits)


lemma write_tile_blank:
  assumes "row < 4"
  shows "write_tile p row i BLANK = Inr (NumberPuzzle (set_tile (tiles p) row i 0)
           (blank_r p) (blank_c p) (parent p) (dist_from_start p) (key p))"
  using assms by (simp add: write_tile_def PUZZLE_WIDTH_def BLANK_def np_float64_0)

lemma read_cell_parsed:
  assumes "parsed seen p row i" "0 \<le> row" "0 \<le> i" "i < 4" "read_cell p row tokens i = Inr p'"
  shows "parsed (seen \<or> tokens ! nat i = ''-'') p' row (i + 1) \<and> nat i < length tokens"
proof -
  have len: "nat i < length tokens"
    using assms(5) by (auto simp: read_cell_def split: if_splits)
  have row: "row < 4"
    using assms(5) len
    by (auto simp: read_cell_def split: if_splits option.splits sum.splits dest: write_tile_Inr)
  have g: "on_grid row i" using assms(2,3,4) row by (simp add: on_grid_def PUZZLE_WIDTH_def)
  have sh: "shape4 (tiles p)" and gb: "on_grid (blank_r p) (blank_c p)"
    using assms(1) by (auto simp: parsed_def)
  show ?thesis
  proof (cases "tokens ! nat i = ''-''")
    case True
    then have p': "p' = set_blank (NumberPuzzle (set_tile (tiles p) row i 0) (blank_r p)
        (blank_c p) (parent p) (dist_from_start p) (key p)) row i"
      using assms(5) len write_tile_blank[OF row, of p i] by (simp add: read_cell_def)
    show ?thesis
      using True len g sh get_set_tile[OF sh g g] shape4_set_tile[OF sh]
      by (simp add: p' parsed_def set_blank_def blank_ok_def)
  next
    case False
    then obtain v where p': "p' = NumberPuzzle (set_tile (tiles p) row i v) (blank_r p)
        (blank_c p) (parent p) (dist_from_start p) (key p)"
      using assms(5) len
      by (auto simp: read_cell_def split: option.splits dest: write_tile_Inr)
    have "seen \<Longrightarrow> get_tile (set_tile (tiles p) row i v) (blank_r p) (blank_c p)
              = get_tile (tiles p) (blank_r p) (blank_c p)"
      using assms(1) get_set_tile[OF sh g gb] by (auto simp: parsed_def)
    then show ?thesis
      using False len gb assms(1) shape4_set_tile[OF sh]
      by (auto simp: p' parsed_def blank_ok_def)
  qed
qed

lemma read_row_parsed:
  assumes "parsed seen p row 0" "0 \<le> row" "read_row p row tokens [0, 1, 2, 3] = Inr p'"
  shows "parsed (seen \<or> ''-'' \<in> set (take 4 tokens)) p' (row + 1) 0"
proof -
  from assms(3) obtain p1 p2 p3 where
    c: "read_cell p row tokens 0 = Inr p1" "read_cell p1 row tokens 1 = Inr p2"
       "read_cell p2 row tokens 2 = Inr p3" "read_cell p3 row tokens 3 = Inr p'"
    by (auto split: sum.splits)
  note s1 = read_cell_parsed[OF assms(1) assms(2) _ _ c(1)]
  have q1: "parsed (seen \<or> tokens ! 0 = ''-'') p1 row 1" using s1 by simp
  note s2 = read_cell_parsed[OF q1 assms(2) _ _ c(2)]
  have q2: "parsed ((seen \<or> tokens ! 0 = ''-'') \<or> tokens ! 1 = ''-'') p2 row 2" using s2 by simp
  note s3 = read_cell_parsed[OF q2 assms(2) _ _ c(3)]
  have q3: "parsed (((seen \<or> tokens ! 0 = ''-'') \<or> tokens ! 1 = ''-'') \<or> tokens ! 2 = ''-'') p3 row 3"
    using s3 by simp
  note s4 = read_cell_parsed[OF q3 assms(2) _ _ c(4)]
  have q4: "parsed ((((seen \<or> tokens ! 0 = ''-'') \<or> tokens ! 1 = ''-'') \<or> tokens ! 2 = ''-'')
              \<or> tokens ! 3 = ''-'') p' row 4"
    and len: "3 < length tokens"
    using s4 by simp_all
  obtain a b c d rest where t: "tokens = a # b # c # d # rest"
  proof -
    have "Suc (Suc (Suc (Suc 0))) \<le> length tokens" using len by simp
    then show ?thesis using that by (auto simp: Suc_le_length_iff)
  qed
  have "''-'' \<in> set (take 4 tokens) \<longleftrightarrow>
          tokens ! 0 = ''-'' \<or> tokens ! 1 = ''-'' \<or> tokens ! 2 = ''-'' \<or> tokens ! 3 = ''-''"
    by (auto simp: t numeral_eq_Suc)
  then show ?thesis using q4 by (auto simp: parsed_def)
qed

lemma read_rows_parsed:
  assumes "parsed seen p row 0" "0 \<le> row" "read_rows p row lines = Inr p'"
  shows "parsed (seen \<or> (\<exists>line \<in> set lines. ''-'' \<in> set (take 4 (split line)))) p'
           (row + int (length lines)) 0"
  using assms
proof (induction lines arbitrary: seen p row)
  case Nil
  then show ?case by simp
next
  case (Cons line lines)
  from Cons.prems(3) obtain p1 where
    r: "read_row p row (split line) [0, 1, 2, 3] = Inr p1" "read_rows p1 (row + 1) lines = Inr p'"
    by (auto simp: range4 split: sum.splits)
  note q = read_row_parsed[OF Cons.prems(1,2) r(1)]
  have "0 \<le> row + 1" using Cons.prems(2) by simp
  from Cons.IH[OF q this r(2)] show ?case
    by (simp add: disj_assoc add.assoc)
qed

lemma parsed_new_puzzle: "parsed False new_puzzle 0 0"
  by (simp add: parsed_def new_puzzle_def shape4_def on_grid_def PUZZLE_WIDTH_def)

lemma read_puzzle_string_parsed:
  assumes "read_puzzle_string str = Inr p"
  shows "wf_puzzle p \<and> (dash_read str \<longrightarrow> blank_ok p)"
  using read_rows_parsed[OF parsed_new_puzzle _ assms[unfolded read_puzzle_string_def]]
  by (auto simp: parsed_def wf_puzzle_def dash_read_def)

text \<open>
  Claim C8: every state of a search has its cached blank position on the cell that holds
  0. For the children of \<open>legal_moves\<close> this holds, whatever the parent's blank cell
  holds; for the parsed initial state it holds when the input has a \<open>-\<close> among the tokens
  read, and fails for an input of sixteen integers: the blank stays at \<open>(0, 0)\<close>.
\<close>

theorem blank_invariant:
  "(read_puzzle_string str = Inr p \<and> dash_read str \<longrightarrow> blank_ok p)
   \<and> (wf_puzzle q \<and> c \<in> set (legal_moves q) \<longrightarrow> blank_ok c)"
  using read_puzzle_string_parsed[of str p] child_blank_ok[of q c] by blast

theorem blank_invariant_witness:
  "read_puzzle_string one_move = Inr one_move_puzzle
   \<and> blank_ok one_move_puzzle
   \<and> move (copy no_blank_puzzle) 1 0 \<in> set (legal_moves no_blank_puzzle)
   \<and> blank_ok (move (copy no_blank_puzzle) 1 0)"
proof -
  have d: "dash_read one_move" by code_simp
  have w: "wf_puzzle no_blank_puzzle"
    by (simp add: wf_puzzle_def shape4_def on_grid_def no_blank_puzzle_def PUZZLE_WIDTH_def)
  have c: "move (copy no_blank_puzzle) 1 0 \<in> set (legal_moves no_blank_puzzle)"
    by (simp add: legal_moves_def no_blank_puzzle_def PUZZLE_WIDTH_def)
  from blank_invariant[of one_move one_move_puzzle no_blank_puzzle "move (copy no_blank_puzzle) 1 0"]
    parse_one_move d w c
  show ?thesis by simp
qed

theorem blank_invariant_counterexample:
  "read_puzzle_string no_blank = Inr no_blank_puzzle \<and> \<not> blank_ok no_blank_puzzle"
proof -
  have "\<not> blank_ok no_blank_puzzle" by code_simp
  then show ?thesis using parse_no_blank by simp
qed

subsection \<open>Lines of four integers\<close>









section \<open>The search\<close>

lemma heappush_Nil: "heappush [] s = [s]"
  by (simp add: heappush_def siftdown_def siftdown_loop.simps)

lemma heappop_single: "heappop [s] = (s, [])"
  by (simp add: heappop_def)

text \<open>
  Claim C7: on a start state (no predecessor) that passes the goal test, \<open>solve\<close> returns,
  with either heuristic, the path of that one state and an explored count of 1.
\<close>

theorem solve_solved:
  assumes "solved s" and "parent s = None"
  shows "solve s better_h = Some (Some [s], 1)"
  unfolding solve_def heappush_Nil
  by (subst astar_loop.simps) (simp add: heappop_single assms)

theorem solve_solved_witness:
  "solved zero_moves_puzzle \<and> parent zero_moves_puzzle = None
   \<and> solve zero_moves_puzzle True = Some (Some [zero_moves_puzzle], 1)
   \<and> solve zero_moves_puzzle False = Some (Some [zero_moves_puzzle], 1)"
proof -
  have a: "solved zero_moves_puzzle" by code_simp
  have b: "parent zero_moves_puzzle = None" by code_simp
  from solve_solved[OF a b] a b show ?thesis by simp
qed

subsection \<open>The loop ends, and what it returns\<close>

lemma finite_grids:
  assumes "finite V"
  shows "finite (grids V)"
proof -
  have rows: "finite {row. set row \<subseteq> V \<and> length row = 4}"
    using assms by (rule finite_lists_length_eq)
  have "grids V \<subseteq> {t. set t \<subseteq> {row. set row \<subseteq> V \<and> length row = 4} \<and> length t = 4}"
    by (auto simp: grids_def shape4_def)
  moreover have "finite {t. set t \<subseteq> {row. set row \<subseteq> V \<and> length row = 4} \<and> length t = 4}"
    using rows by (rule finite_lists_length_eq)
  ultimately show ?thesis by (rule finite_subset)
qed

lemma push_node_mset: "mset (push_node h st c ol) = add_mset (keyed h st c) (mset ol)"
  by (simp add: push_node_def keyed_def heappush_mset Let_def)

lemma fold_push_node_mset:
  "mset (fold (push_node h st) cs ol) = mset (map (keyed h st) cs) + mset ol"
  by (induction cs arbitrary: ol) (simp_all add: push_node_mset)

lemma fold_push_node_set:
  "set (fold (push_node h st) cs ol) = keyed h st ` set cs \<union> set ol"
proof -
  have "set_mset (mset (fold (push_node h st) cs ol)) = set_mset (mset (map (keyed h st) cs) + mset ol)"
    by (simp only: fold_push_node_mset)
  then show ?thesis by simp
qed

lemma fold_push_node_length:
  "length (fold (push_node h st) cs ol) = length cs + length ol"
proof -
  have "size (mset (fold (push_node h st) cs ol)) = size (mset (map (keyed h st) cs) + mset ol)"
    by (simp only: fold_push_node_mset)
  then show ?thesis by simp
qed

lemma heappop_props:
  assumes "ol \<noteq> []"
  shows "fst (heappop ol) \<in> set ol" "set (snd (heappop ol)) \<subseteq> set ol"
    "Suc (length (snd (heappop ol))) = length ol"
proof -
  note m = heappop_mset[OF assms]
  have "set_mset (add_mset (fst (heappop ol)) (mset (snd (heappop ol)))) = set_mset (mset ol)"
    by (simp only: m)
  then show "fst (heappop ol) \<in> set ol" "set (snd (heappop ol)) \<subseteq> set ol" by auto
  have "size (add_mset (fst (heappop ol)) (mset (snd (heappop ol)))) = size (mset ol)"
    by (simp only: m)
  then show "Suc (length (snd (heappop ol))) = length ol" by simp
qed

lemma astar_loop_total:
  assumes fin: "finite V" and zero: "0 \<in> V"
    and step: "\<And>s c. Q s \<Longrightarrow> c \<in> set (legal_moves s) \<Longrightarrow> Q (keyed h s c)"
    and Qinv: "\<And>s. Q s \<Longrightarrow> inv_puzzle V s"
    and all: "\<forall>s \<in> set ol. Q s"
  shows "\<exists>r n. astar_loop h ol closed e = Some (r, n) \<and> goal_path Q r"
  using all
proof (induction "4 * card (grids V - closed) + length ol" arbitrary: ol closed e rule: less_induct)
  case less
  show ?case
  proof (cases "ol = []")
    case True
    then show ?thesis
      by (subst astar_loop.simps) (simp add: goal_path_def)
  next
    case False
    define state where "state = fst (heappop ol)"
    define ol' where "ol' = snd (heappop ol)"
    note hp = heappop_props[OF False, folded state_def ol'_def]
    have Qs: "Q state" using hp(1) less.prems by blast
    have Qol': "\<forall>s \<in> set ol'. Q s" using hp(2) less.prems by blast
    show ?thesis
    proof (cases "solved state")
      case True
      then show ?thesis
        using False Qs
        by (subst astar_loop.simps) (auto simp: Let_def goal_path_def state_def[symmetric])
    next
      case ns: False
      show ?thesis
      proof (cases "tiles state \<in> closed")
        case True
        have "4 * card (grids V - closed) + length ol' < 4 * card (grids V - closed) + length ol"
          using hp(3) by simp
        from less.hyps[OF this Qol', of "e + 1"]
        show ?thesis
          using False ns True
          by (subst astar_loop.simps) (simp add: Let_def state_def[symmetric] ol'_def[symmetric])
      next
        case nc: False
        define ol'' where "ol'' = fold (push_node h state) (legal_moves state) ol'"
        have in_g: "tiles state \<in> grids V - closed"
          using Qinv[OF Qs] nc by (simp add: grids_def inv_puzzle_def wf_puzzle_def)
        have fg: "finite (grids V - closed)" using finite_grids[OF fin] by simp
        have "grids V - insert (tiles state) closed = (grids V - closed) - {tiles state}"
          by auto
        then have "card (grids V - insert (tiles state) closed) = card (grids V - closed) - 1"
          using in_g fg by simp
        moreover have "card (grids V - closed) > 0"
          using in_g fg by (metis card_gt_0_iff empty_iff)
        moreover have "length ol'' \<le> 4 + length ol'"
          using length_legal_moves[of state] by (simp add: ol''_def fold_push_node_length)
        ultimately have m: "4 * card (grids V - insert (tiles state) closed) + length ol''
                         < 4 * card (grids V - closed) + length ol"
          using hp(3) by linarith
        have Q'': "\<forall>s \<in> set ol''. Q s"
          using Qol' step[OF Qs] by (auto simp: ol''_def fold_push_node_set)
        from less.hyps[OF m Q'', of "e + 1"]
        show ?thesis
          using False ns nc
          by (subst astar_loop.simps)
             (simp add: Let_def state_def[symmetric] ol'_def[symmetric] ol''_def[symmetric])
      qed
    qed
  qed
qed

lemma backtrack_Some: "backtrack acc (Some p) = backtrack (p # acc) (parent p)"
  by (cases p) simp

lemma backtrack_steps:
  "chain_ok g \<Longrightarrow> steps_ok (g # rest) \<Longrightarrow> steps_ok (backtrack (g # rest) (parent g))"
proof (induction g arbitrary: rest rule: chain_ok.induct)
  case (1 t r c d k)
  then show ?case by simp
next
  case (2 t r c p d k)
  let ?g = "NumberPuzzle t r c (Some p) d k"
  have "steps_ok (p # ?g # rest)" using "2.prems" by simp
  moreover have "chain_ok p" using "2.prems" by simp
  ultimately have "steps_ok (backtrack (p # ?g # rest) (parent p))" by (rule "2.IH"[rotated])
  then show ?case by (simp add: backtrack_Some)
qed

lemma backtrack_last: "acc \<noteq> [] \<Longrightarrow> last (backtrack acc p) = last acc"
  by (induction acc p rule: backtrack.induct) simp_all

lemma start_values: "finite (insert 0 (set (concat (tiles s))))" "0 \<in> insert 0 (set (concat (tiles s)))"
  by simp_all

text \<open>
  Claim C5: on every 4x4 start configuration \<open>solve\<close> returns: a path that ends in a
  solved state, or \<open>None\<close>, each with the count of explored nodes; the loop leaves an empty
  frontier with \<open>None\<close> and the count reached. Every expansion closes one more of the
  finitely many grids over the start's tile values, and every other pass shortens the
  frontier.
\<close>

theorem solve_terminates:
  assumes "wf_puzzle s"
  shows "(\<exists>path n. solve s better_h = Some (path, n)
            \<and> (case path of None \<Rightarrow> True | Some p \<Rightarrow> solved (last p)))
         \<and> astar_loop better_h [] closed_list explored = Some (None, explored)"
proof -
  let ?V = "insert 0 (set (concat (tiles s)))"
  have "\<forall>x \<in> set [s]. inv_puzzle ?V x" using assms by (auto simp: inv_puzzle_def)
  from astar_loop_total[of ?V "inv_puzzle ?V" better_h "[s]" "{}" 0, OF start_values _ _ this]
  obtain r n where r: "astar_loop better_h [s] {} 0 = Some (r, n)" "goal_path (inv_puzzle ?V) r"
    by (auto simp: inv_child)
  have "case r of None \<Rightarrow> True | Some p \<Rightarrow> solved (last p)"
    using r(2) by (auto simp: goal_path_def backtrack_last split: option.splits)
  moreover have "astar_loop better_h [] closed_list explored = Some (None, explored)"
    by (subst astar_loop.simps) simp
  ultimately show ?thesis using r(1) by (simp add: solve_def heappush_Nil)
qed

theorem solve_terminates_witness:
  "read_puzzle_string empty_input = Inr new_puzzle
   \<and> solve new_puzzle False = Some (None, 3)
   \<and> (\<exists>path n. solve new_puzzle False = Some (path, n))"
proof -
  have p: "read_puzzle_string empty_input = Inr new_puzzle" by code_simp
  have w: "wf_puzzle new_puzzle"
    by (simp add: wf_puzzle_def shape4_def on_grid_def new_puzzle_def PUZZLE_WIDTH_def)
  have s: "solve new_puzzle False = Some (None, 3)" by code_simp
  from solve_terminates[OF w, of False] p w s show ?thesis by auto
qed

text \<open>
  Claim C6: along a returned path every state comes from its predecessor by one exchange of
  the blank cell with an adjacent cell, at a cost of 1. This needs a start state whose
  cached blank cell holds 0: from \<open>no_blank\<close> the first move overwrites tile 16.
\<close>

theorem solve_path_steps:
  assumes "wf_puzzle s" "blank_ok s" "parent s = None"
    and "solve s better_h = Some (Some path, n)"
  shows "steps_ok path"
proof -
  let ?V = "insert 0 (set (concat (tiles s)))"
  let ?Q = "\<lambda>x. inv_puzzle ?V x \<and> blank_ok x \<and> chain_ok x"
  have "chain_ok s" using assms(3) by (cases s) simp
  then have "\<forall>x \<in> set [s]. ?Q x" using assms by (auto simp: inv_puzzle_def)
  from astar_loop_total[of ?V ?Q better_h "[s]" "{}" 0, OF start_values _ _ this]
  obtain r m where r: "astar_loop better_h [s] {} 0 = Some (r, m)" "goal_path ?Q r"
    using child_chain[of ?V _ _ better_h] by auto
  have "r = Some path" using r(1) assms(4) by (simp add: solve_def heappush_Nil)
  then obtain g where "chain_ok g" "path = backtrack [g] (parent g)"
    using r(2) by (auto simp: goal_path_def)
  then show ?thesis using backtrack_steps[of g "[]"] by simp
qed

theorem solve_path_steps_witness:
  "blank_ok one_move_puzzle \<and> parent one_move_puzzle = None
   \<and> solve one_move_puzzle False = Some (Some one_move_path, 2) \<and> steps_ok one_move_path"
proof -
  have w: "wf_puzzle one_move_puzzle"
    by (simp add: wf_puzzle_def shape4_def on_grid_def one_move_puzzle_def PUZZLE_WIDTH_def)
  have b: "blank_ok one_move_puzzle" by code_simp
  have p: "parent one_move_puzzle = None" by code_simp
  have s: "solve one_move_puzzle False = Some (Some one_move_path, 2)" by code_simp
  from solve_path_steps[OF w b p s] w b p s show ?thesis by simp
qed

theorem solve_path_steps_counterexample:
  "read_puzzle_string no_blank = Inr no_blank_puzzle
   \<and> map_option (map tiles) (found_path (solve no_blank_puzzle False)) = Some no_blank_grids
   \<and> map_option steps_ok (found_path (solve no_blank_puzzle False)) = Some False"
proof -
  have "map_option (map tiles) (found_path (solve no_blank_puzzle False)) = Some no_blank_grids"
    by code_simp
  moreover have "map_option steps_ok (found_path (solve no_blank_puzzle False)) = Some False"
    by code_simp
  ultimately show ?thesis using parse_no_blank by simp
qed

text \<open>
  On the same input the tile-mismatch heuristic finds a path of 9 steps.
\<close>

lemma solve_mismatch_nine_moves:
  "map_option steps (found_path (solve nine_moves_puzzle False)) = Some 9"
  by code_simp

text \<open>
  Claim C1: with either heuristic the returned path is a shortest one. With the Manhattan
  heuristic it is not: on \<open>nine_moves\<close>, \<open>solve\<close> returns a path of 11 steps after 16
  expansions, and the blank reaches the solved grid in the 9 slides of \<open>nine_moves_walk\<close>.
\<close>

theorem solve_manhattan_not_shortest:
  "read_puzzle_string nine_moves = Inr nine_moves_puzzle
   \<and> map_option steps (found_path (solve nine_moves_puzzle True)) = Some 11
   \<and> explored_count (solve nine_moves_puzzle True) = Some 16
   \<and> length nine_moves_walk = 9
   \<and> slide_walk (tiles nine_moves_puzzle) (blank_r nine_moves_puzzle, blank_c nine_moves_puzzle)
        nine_moves_walk = Some (tiles zero_moves_puzzle)
   \<and> solved zero_moves_puzzle"
proof -
  have "solve nine_moves_puzzle True \<noteq> None
        \<and> map_option steps (found_path (solve nine_moves_puzzle True)) = Some 11
        \<and> explored_count (solve nine_moves_puzzle True) = Some 16" by code_simp
  moreover have "length nine_moves_walk = 9" by code_simp
  moreover have "slide_walk (tiles nine_moves_puzzle) (blank_r nine_moves_puzzle, blank_c nine_moves_puzzle)
        nine_moves_walk = Some (tiles zero_moves_puzzle)" by code_simp
  moreover have "solved zero_moves_puzzle" by code_simp
  ultimately show ?thesis using parse_nine_moves by simp
qed

end
